theory Spec2Isabelle
  imports Main "HOL-Library.Word" "HOL-Library.Extended_Nat" "HOL-Library.AList"
begin

unbundle bit_operations_syntax

section \<open>Bytes, big-endian fields and JavaScript numbers\<close>

text \<open>
  The file \<^verbatim>\<open>src/bin/ws.mjs\<close> holds the value codec (\<^verbatim>\<open>pack\<close>, \<^verbatim>\<open>unpack\<close>,
  \<^verbatim>\<open>packValue\<close>, \<^verbatim>\<open>unpackValue\<close>), the frame helpers (\<^verbatim>\<open>encode\<close>, \<^verbatim>\<open>decode\<close>) and the
  classes \<^verbatim>\<open>Channel\<close> and \<^verbatim>\<open>Server\<close>. A byte is an 8-bit word; a byte sequence (a
  JavaScript array of numbers below 256) is a list of bytes.
\<close>

type_synonym byte = "8 word"

text \<open>
  \<^verbatim>\<open>DataView\<close> reads and writes unsigned integers of \<open>k\<close> bytes in big-endian order
  (no \<^verbatim>\<open>littleEndian\<close> argument is ever passed in the source). \<open>be_bytes k n\<close> are the
  \<open>k\<close> low-order bytes of \<open>n\<close>, most significant first; \<open>be_nat\<close> reads them back.
\<close>

fun be_bytes :: "nat \<Rightarrow> nat \<Rightarrow> byte list" where
  "be_bytes 0 n = []"
| "be_bytes (Suc k) n = be_bytes k (n div 256) @ [of_nat n]"

definition be_nat :: "byte list \<Rightarrow> nat" where
  "be_nat bs = foldl (\<lambda>a b. a * 256 + unat b) 0 bs"

text \<open>
  Modelled from the spec: \<^verbatim>\<open>uint64ToBytes\<close> is imported from the package
  \<^verbatim>\<open>alhadis.utils\<close>; the stream format fixes it as the 8-byte big-endian unsigned
  field of a count or length.
\<close>

definition uint64ToBytes :: "nat \<Rightarrow> byte list" where
  "uint64ToBytes n = be_bytes 8 n"

text \<open>Two's complement reading of a \<open>k\<close>-byte unsigned value (\<^verbatim>\<open>getInt8\<close> \<dots> \<^verbatim>\<open>getBigInt64\<close>).\<close>

definition to_signed :: "nat \<Rightarrow> nat \<Rightarrow> int" where
  "to_signed k v = (if 2 ^ (8 * k - 1) \<le> v then int v - 2 ^ (8 * k) else int v)"

text \<open>
  \<^verbatim>\<open>setUint8\<close> \<dots> \<^verbatim>\<open>setBigInt64\<close>: the integer is reduced modulo \<open>2 ^ (8 * k)\<close> and
  written big-endian.
\<close>

definition dv_set :: "nat \<Rightarrow> int \<Rightarrow> byte list" where
  "dv_set k n = be_bytes k (nat (n mod 2 ^ (8 * k)))"

text \<open>
  A JavaScript \<^verbatim>\<open>Number\<close> is an IEEE-754 double, kept here as its 64-bit pattern:
  sign (bit 63), biased exponent (bits 62 to 52) and fraction (bits 51 to 0).
\<close>

type_synonym double = "64 word"

definition d_neg :: "double \<Rightarrow> bool" where
  "d_neg w = (2 ^ 63 \<le> unat w)"

definition d_exp :: "double \<Rightarrow> nat" where
  "d_exp w = unat w div 2 ^ 52 mod 2048"

definition d_man :: "double \<Rightarrow> nat" where
  "d_man w = unat w mod 2 ^ 52"

definition isNaN :: "double \<Rightarrow> bool" where
  "isNaN w = (d_exp w = 2047 \<and> d_man w \<noteq> 0)"

definition neg_zero :: double where
  "neg_zero = 0x8000000000000000"

definition pos_infinity :: double where
  "pos_infinity = 0x7FF0000000000000"

definition neg_infinity :: double where
  "neg_infinity = 0xFFF0000000000000"

definition canonical_NaN :: double where
  "canonical_NaN = 0x7FF8000000000000"

text \<open>
  \<open>int_value w\<close> is the integer a double denotes when it denotes one (both zeros denote
  0); \<open>trunc_value w\<close> is the double truncated towards zero, 0 for a NaN or an infinity,
  as the first step of ECMAScript's \<^verbatim>\<open>ToInt32\<close>.
\<close>

definition d_sign :: "double \<Rightarrow> int" where
  "d_sign w = (if d_neg w then - 1 else 1)"

definition int_value :: "double \<Rightarrow> int option" where
  "int_value w =
     (let e = d_exp w; m = 2 ^ 52 + d_man w in
      if e = 2047 then None
      else if e = 0 then (if d_man w = 0 then Some 0 else None)
      else if e < 1023 then None
      else if 1075 \<le> e then Some (d_sign w * int (m * 2 ^ (e - 1075)))
      else if m mod 2 ^ (1075 - e) = 0 then Some (d_sign w * int (m div 2 ^ (1075 - e)))
      else None)"

definition trunc_value :: "double \<Rightarrow> int" where
  "trunc_value w =
     (let e = d_exp w; m = 2 ^ 52 + d_man w in
      if e = 2047 \<or> e < 1023 then 0
      else if 1075 \<le> e then d_sign w * int (m * 2 ^ (e - 1075))
      else d_sign w * int (m div 2 ^ (1075 - e)))"

definition wrap32 :: "int \<Rightarrow> int" where
  "wrap32 n = (n + 2 ^ 31) mod 2 ^ 32 - 2 ^ 31"

definition ToInt32 :: "double \<Rightarrow> int" where
  "ToInt32 w = wrap32 (trunc_value w)"

text \<open>
  The double of an integer, exact for \<open>\<bar>n\<bar> < 2 ^ 53\<close>; the codec builds a
  \<^verbatim>\<open>Number\<close> from an integer only below \<open>2 ^ 32\<close> (\<^verbatim>\<open>getUint8\<close> \<dots> \<^verbatim>\<open>getInt32\<close>).
\<close>

fun bit_length :: "nat \<Rightarrow> nat" where
  "bit_length n = (if n = 0 then 0 else Suc (bit_length (n div 2)))"

declare bit_length.simps [simp del]

definition double_of_int :: "int \<Rightarrow> double" where
  "double_of_int n =
     (if n = 0 then 0
      else let a = nat \<bar>n\<bar>; e = bit_length a - 1 in
        of_nat ((if n < 0 then 2 ^ 63 else 0) + (e + 1023) * 2 ^ 52 + (a * 2 ^ (52 - e) - 2 ^ 52)))"

text \<open>
  \<^verbatim>\<open>Number(b)\<close> of a non-negative \<^verbatim>\<open>BigInt\<close> rounds to the nearest double, ties to
  even: exact below \<open>2 ^ 53\<close>. Counts, lengths and consumed sizes are such numbers.
\<close>

definition Number_of_nat :: "nat \<Rightarrow> nat" where
  "Number_of_nat n =
     (if n < 2 ^ 53 then n
      else let k = bit_length n - 53; q = n div 2 ^ k; r = n mod 2 ^ k; h = 2 ^ (k - 1) in
        (if h < r \<or> (r = h \<and> odd q) then q + 1 else q) * 2 ^ k)"

text \<open>Addition and multiplication of two such numbers round the exact result again.\<close>

definition js_add :: "nat \<Rightarrow> nat \<Rightarrow> nat" where
  "js_add a b = Number_of_nat (a + b)"

definition js_mul :: "nat \<Rightarrow> nat \<Rightarrow> nat" where
  "js_mul a b = Number_of_nat (a * b)"

section \<open>The values of the codec\<close>

text \<open>
  Modelled from the spec: \<^verbatim>\<open>utf8Decode\<close> (string to bytes) and \<^verbatim>\<open>utf8Encode\<close> (bytes
  to string) are imported from \<^verbatim>\<open>alhadis.utils\<close>. A string is kept as its UTF-8 byte
  sequence (\<^typ>\<open>string\<close> is a list of 8-bit characters), so both are the change of
  type between characters and bytes.
\<close>

definition utf8Decode :: "string \<Rightarrow> byte list" where
  "utf8Decode s = map of_char s"

definition utf8Encode :: "byte list \<Rightarrow> string" where
  "utf8Encode bs = map (\<lambda>b. char_of (unat b)) bs"

text \<open>
  The typed-array constructors, in the order of the list that \<^verbatim>\<open>packValue\<close> and
  \<^verbatim>\<open>unpackValue\<close> both index. A typed array is a view on a buffer: the buffer's bytes,
  the offset of the view and its length in elements.
\<close>

datatype ta_kind =
  Uint8Array | Uint16Array | Uint32Array | BigUint64Array
  | Int8Array | Int16Array | Int32Array | BigInt64Array
  | Float32Array | Float64Array

definition typed_arrays :: "ta_kind list" where
  "typed_arrays =
     [Uint8Array, Uint16Array, Uint32Array, BigUint64Array,
      Int8Array, Int16Array, Int32Array, BigInt64Array,
      Float32Array, Float64Array]"

fun BYTES_PER_ELEMENT :: "ta_kind \<Rightarrow> nat" where
  "BYTES_PER_ELEMENT Uint8Array = 1"
| "BYTES_PER_ELEMENT Uint16Array = 2"
| "BYTES_PER_ELEMENT Uint32Array = 4"
| "BYTES_PER_ELEMENT BigUint64Array = 8"
| "BYTES_PER_ELEMENT Int8Array = 1"
| "BYTES_PER_ELEMENT Int16Array = 2"
| "BYTES_PER_ELEMENT Int32Array = 4"
| "BYTES_PER_ELEMENT BigInt64Array = 8"
| "BYTES_PER_ELEMENT Float32Array = 4"
| "BYTES_PER_ELEMENT Float64Array = 8"

record typed_array =
  kind :: ta_kind
  buffer :: "byte list"
  byteOffset :: nat
  ta_length :: nat

text \<open>The bytes a view shows: its elements as they lie in memory.\<close>

definition ta_bytes :: "typed_array \<Rightarrow> byte list" where
  "ta_bytes a = take (ta_length a * BYTES_PER_ELEMENT (kind a)) (drop (byteOffset a) (buffer a))"

text \<open>\<^verbatim>\<open>new T(buffer)\<close>: a view on a whole buffer; a \<^verbatim>\<open>RangeError\<close> (\<open>None\<close>) when the
  buffer's length is not a multiple of the element size.\<close>

definition new_typed_array :: "ta_kind \<Rightarrow> byte list \<Rightarrow> typed_array option" where
  "new_typed_array k buf =
     (if length buf mod BYTES_PER_ELEMENT k = 0
      then Some \<lparr>kind = k, buffer = buf, byteOffset = 0,
                 ta_length = length buf div BYTES_PER_ELEMENT k\<rparr>
      else None)"

text \<open>\<^verbatim>\<open>Uint8Array.from(list)\<close>: a byte array that owns its buffer.\<close>

definition Uint8Array_from :: "byte list \<Rightarrow> typed_array" where
  "Uint8Array_from bs = \<lparr>kind = Uint8Array, buffer = bs, byteOffset = 0, ta_length = length bs\<rparr>"

text \<open>\<^verbatim>\<open>bytes.subarray(begin)\<close> of a byte array: a view on the same buffer.\<close>

definition subarray :: "typed_array \<Rightarrow> nat \<Rightarrow> typed_array" where
  "subarray a b =
     (let b' = min b (ta_length a) in
      a\<lparr>byteOffset := byteOffset a + b', ta_length := ta_length a - b'\<rparr>)"

text \<open>\<^verbatim>\<open>xs.slice(b, e)\<close> and \<^verbatim>\<open>xs.subarray(b, e)\<close> on the elements, for \<open>b \<le> e\<close>.\<close>

definition slice :: "'a list \<Rightarrow> nat \<Rightarrow> nat \<Rightarrow> 'a list" where
  "slice xs b e = take (e - b) (drop b xs)"

record regexp =
  source :: string
  global :: bool
  ignoreCase :: bool
  multiline :: bool
  dotAll :: bool
  unicode :: bool
  sticky :: bool

text \<open>
  The values \<^verbatim>\<open>packValue\<close> tells apart. A \<open>Date\<close> is kept as the text its branch
  serialises (\<^verbatim>\<open>toISOString()\<close>, or \<^verbatim>\<open>"Invalid Date"\<close>), and \<open>Object\<close>, any value
  of another constructor, as its \<^verbatim>\<open>JSON.stringify\<close> text.
\<close>

datatype js_value =
  Undefined
  | Null
  | Boolean bool
  | Number double
  | BigInt int
  | TypedArray typed_array
  | Date string
  | String string
  | RegExp regexp
  | Object string

text \<open>
  \<^verbatim>\<open>JSON.parse(text)\<close>, \<^verbatim>\<open>new RegExp(source, flags)\<close> and \<^verbatim>\<open>new Date(text)\<close> are
  built-ins of the host, which \<^verbatim>\<open>unpackValue\<close> and \<^verbatim>\<open>unpack\<close> take as the parameter
  \<open>bi\<close>. The first two throw a \<^verbatim>\<open>SyntaxError\<close> on a text that is not JSON and on a
  pattern or flags that are not a regular expression: their result is \<open>None\<close> then.
  \<^verbatim>\<open>new Date\<close> never throws, and \<open>new_Date\<close> gives the text of the date it builds,
  \<^verbatim>\<open>"Invalid Date"\<close> for a text it cannot read.
\<close>

record builtins =
  JSON_parse :: "string \<Rightarrow> js_value option"
  new_RegExp :: "string \<Rightarrow> string \<Rightarrow> regexp option"
  new_Date :: "string \<Rightarrow> string"

section \<open>packValue and pack\<close>

text \<open>\<^verbatim>\<open>xs.indexOf(x)\<close> for an element that occurs in the list.\<close>

definition indexOf :: "'a list \<Rightarrow> 'a \<Rightarrow> nat" where
  "indexOf xs x = length (takeWhile (\<lambda>y. y \<noteq> x) xs)"

datatype int_type = Uint8 | Uint16 | Uint32 | Uint64 | Int8 | Int16 | Int32 | Int64

definition int_types :: "int_type list" where
  "int_types = [Uint8, Uint16, Uint32, Uint64, Int8, Int16, Int32, Int64]"

text \<open>The width and type \<^verbatim>\<open>[size, type]\<close> chosen for an integer; \<open>None\<close> when no
  branch assigns one (\<^verbatim>\<open>!type\<close>).\<close>

definition int_format :: "int \<Rightarrow> (nat \<times> int_type) option" where
  "int_format input =
     (if 0 \<le> input then
        (if input \<le> 255 then Some (1, Uint8)
         else if input \<le> 2 ^ 16 - 1 then Some (2, Uint16)
         else if input \<le> 2 ^ 32 - 1 then Some (4, Uint32)
         else if input \<le> 2 ^ 64 - 1 then Some (8, Uint64)
         else None)
      else if input < 0 then
        (if - 127 \<le> input then Some (1, Int8)
         else if - (2 ^ 15) + 1 \<le> input then Some (2, Int16)
         else if - (2 ^ 31) + 1 \<le> input then Some (4, Int32)
         else if - (2 ^ 63) + 1 \<le> input then Some (8, Int64)
         else None)
      else None)"

text \<open>
  \<^verbatim>\<open>input.toString(16)\<close>, padded to an even number of digits and read back pair by
  pair: the bytes of the magnitude, most significant first, at least one.
\<close>

function magnitude_bytes :: "nat \<Rightarrow> byte list" where
  "magnitude_bytes n = (if n < 256 then [of_nat n] else magnitude_bytes (n div 256) @ [of_nat n])"
  by pat_completeness auto
termination
  by (relation "measure id") auto

declare magnitude_bytes.simps [simp del]

text \<open>The integer branch, shared by a \<^verbatim>\<open>Number\<close> with \<^verbatim>\<open>~~input === input\<close> and a
  \<^verbatim>\<open>BigInt\<close>.\<close>

definition packInteger :: "int \<Rightarrow> byte list" where
  "packInteger input =
     (case int_format input of
        None \<Rightarrow>
          (let type = (if input < 0 then 28 else 27);
               bytes = magnitude_bytes (nat \<bar>input\<bar>);
               size = uint64ToBytes (length bytes)
           in type # size @ bytes)
      | Some (size', type) \<Rightarrow>
          of_nat (indexOf int_types type + 8) # dv_set size' input)"

definition regexp_flags :: "regexp \<Rightarrow> byte" where
  "regexp_flags r =
     (if global r then 1 else 0) OR (if ignoreCase r then push_bit 1 1 else 0)
     OR (if multiline r then push_bit 2 1 else 0) OR (if dotAll r then push_bit 3 1 else 0)
     OR (if unicode r then push_bit 4 1 else 0) OR (if sticky r then push_bit 5 1 else 0)"

text \<open>
  \<^verbatim>\<open>packValue\<close>. The source tests \<^verbatim>\<open>Number.isNaN\<close> and \<^verbatim>\<open>Object.is(input, -0)\<close>,
  then the six constants, then switches on the constructor; the equations below follow
  that order within each constructor. The typed-array branch serialises
  \<^verbatim>\<open>new Uint8Array(input.buffer)\<close>, the whole buffer as it lies in memory, and writes
  that byte length into the 8-byte field.
\<close>

fun packValue :: "js_value \<Rightarrow> byte list" where
  "packValue Undefined = [0x00]"
| "packValue Null = [0x01]"
| "packValue (Boolean b) = (if b then [0x03] else [0x04])"
| "packValue (Number w) =
     (if isNaN w then [0x02]
      else if w = neg_zero then [0x07]
      else if w = pos_infinity then [0x05]
      else if w = neg_infinity then [0x06]
      else if int_value w \<noteq> Some (ToInt32 w) then 26 # be_bytes 8 (unat w)
      else packInteger (ToInt32 w))"
| "packValue (BigInt n) = packInteger n"
| "packValue (TypedArray input) =
     (let bytes = buffer input;
          size = uint64ToBytes (length bytes);
          type = indexOf typed_arrays (kind input) + 16
      in of_nat type # size @ bytes)"
| "packValue (Date text) =
     (let input = utf8Decode text in 29 # uint64ToBytes (length input) @ input)"
| "packValue (String text) =
     (let input = utf8Decode text in 30 # uint64ToBytes (length input) @ input)"
| "packValue (RegExp r) =
     (let flags = regexp_flags r;
          input = utf8Decode (source r);
          size = uint64ToBytes (length input)
      in 31 # size @ flags # input)"
| "packValue (Object json) =
     (let input = utf8Decode json; size = uint64ToBytes (length input)
      in 32 # size @ input)"

declare packValue.simps [simp del]

definition pack :: "js_value list \<Rightarrow> typed_array" where
  "pack args =
     Uint8Array_from (uint64ToBytes (length args) @ concat (map packValue args))"

section \<open>unpackValue and unpack\<close>

text \<open>
  What the codec throws: the two \<^verbatim>\<open>TypeError\<close>s of \<^verbatim>\<open>unpackValue\<close>, the
  \<^verbatim>\<open>RangeError\<close> of a \<^verbatim>\<open>DataView\<close> read out of bounds, of a typed array on a buffer of
  the wrong length and of \<^verbatim>\<open>new Array(size)\<close> beyond \<open>2 ^ 32 - 1\<close>, and the
  \<^verbatim>\<open>SyntaxError\<close> of \<^verbatim>\<open>BigInt("0x")\<close>, of \<^verbatim>\<open>JSON.parse\<close> and of \<^verbatim>\<open>new RegExp\<close>.
\<close>

datatype error =
  Cannot_unpack_empty_buffer
  | Unrecognised_type_identifier byte
  | RangeError
  | SyntaxError

text \<open>\<^verbatim>\<open>view.getUintN(i)\<close> on the bytes of a \<^verbatim>\<open>DataView\<close>, for \<open>N = 8 * k\<close>.\<close>

definition dv_get :: "nat \<Rightarrow> byte list \<Rightarrow> nat \<Rightarrow> error + nat" where
  "dv_get k view i =
     (if i + k \<le> length view then Inr (be_nat (take k (drop i view))) else Inl RangeError)"

text \<open>The string \<^verbatim>\<open>flagStr\<close> that the \<^verbatim>\<open>RegExp\<close> branch builds from the flags byte.\<close>

definition flagStr :: "byte \<Rightarrow> string" where
  "flagStr flags =
     (if flags AND 1 \<noteq> 0 then ''g'' else [])
     @ (if flags AND push_bit 1 1 \<noteq> 0 then ''i'' else [])
     @ (if flags AND push_bit 2 1 \<noteq> 0 then ''m'' else [])
     @ (if flags AND push_bit 3 1 \<noteq> 0 then ''s'' else [])
     @ (if flags AND push_bit 4 1 \<noteq> 0 then ''u'' else [])
     @ (if flags AND push_bit 5 1 \<noteq> 0 then ''y'' else [])"

text \<open>
  \<^verbatim>\<open>unpackValue(input)\<close> returns the pair \<^verbatim>\<open>[size, value]\<close> or throws. It first
  fixes \<^verbatim>\<open>type\<close>, the first byte; \<open>view\<close>, the bytes of
  \<^verbatim>\<open>new DataView(input.buffer, input.byteOffset + 1)\<close>, which runs to the end of the
  buffer; and \<^verbatim>\<open>size\<close>, the 8-byte field after the tag, 0 when fewer than 8 bytes
  follow (\<open>size_field\<close>). \<open>unpack_tagged\<close> is the rest of the function, on these and on
  \<open>elems\<close>, the bytes \<^verbatim>\<open>input\<close> shows.
\<close>

definition size_field :: "byte list \<Rightarrow> nat" where
  "size_field view = (if 8 \<le> length view then Number_of_nat (be_nat (take 8 view)) else 0)"

definition unpack_tagged ::
  "builtins \<Rightarrow> byte \<Rightarrow> byte list \<Rightarrow> byte list \<Rightarrow> nat \<Rightarrow> error + (nat \<times> js_value)"
where
  "unpack_tagged bi type elems view size' =
     (if type = 0 then Inr (1, Undefined)
      else if type = 1 then Inr (1, Null)
      else if type = 2 then Inr (1, Number canonical_NaN)
      else if type = 3 then Inr (1, Boolean True)
      else if type = 4 then Inr (1, Boolean False)
      else if type = 5 then Inr (1, Number pos_infinity)
      else if type = 6 then Inr (1, Number neg_infinity)
      else if type = 7 then Inr (1, Number neg_zero)
      else if type = 8 then
        map_sum id (\<lambda>v. (2, Number (double_of_int (int v)))) (dv_get 1 view 0)
      else if type = 9 then
        map_sum id (\<lambda>v. (3, Number (double_of_int (int v)))) (dv_get 2 view 0)
      else if type = 10 then
        map_sum id (\<lambda>v. (5, Number (double_of_int (int v)))) (dv_get 4 view 0)
      else if type = 11 then
        map_sum id (\<lambda>v. (9, BigInt (int v))) (dv_get 8 view 0)
      else if type = 12 then
        map_sum id (\<lambda>v. (2, Number (double_of_int (to_signed 1 v)))) (dv_get 1 view 0)
      else if type = 13 then
        map_sum id (\<lambda>v. (3, Number (double_of_int (to_signed 2 v)))) (dv_get 2 view 0)
      else if type = 14 then
        map_sum id (\<lambda>v. (5, Number (double_of_int (to_signed 4 v)))) (dv_get 4 view 0)
      else if type = 15 then
        map_sum id (\<lambda>v. (9, BigInt (to_signed 8 v))) (dv_get 8 view 0)
      else if type = 26 then
        map_sum id (\<lambda>v. (9, Number (of_nat v))) (dv_get 8 view 0)
      else if 15 < type \<and> type < 26 then
        (case new_typed_array (typed_arrays ! (unat type - 16))
                (slice elems 9
                   (js_add 9 (js_mul size' (BYTES_PER_ELEMENT (typed_arrays ! (unat type - 16))))))
         of None \<Rightarrow> Inl RangeError
          | Some a \<Rightarrow> Inr (9, TypedArray a))
      else if type = 27 \<or> type = 28 then
        (if slice elems 9 (js_add 9 size') = [] then Inl SyntaxError
         else Inr (js_add 9 size',
                   BigInt (int (be_nat (slice elems 9 (js_add 9 size')))
                           * (if type = 28 then - 1 else 1))))
      else if type = 31 then
        (case dv_get 1 view 8 of
           Inl e \<Rightarrow> Inl e
         | Inr flags \<Rightarrow>
             (case new_RegExp bi (utf8Encode (slice elems 10 (js_add 10 size')))
                     (flagStr (of_nat flags))
              of None \<Rightarrow> Inl SyntaxError
               | Some r \<Rightarrow> Inr (js_add 10 size', RegExp r)))
      else if type = 29 then
        Inr (js_add 9 size', Date (new_Date bi (utf8Encode (slice elems 9 (js_add 9 size')))))
      else if type = 30 then
        Inr (js_add 9 size', String (utf8Encode (slice elems 9 (js_add 9 size'))))
      else if type = 32 then
        (case JSON_parse bi (utf8Encode (slice elems 9 (js_add 9 size'))) of
           None \<Rightarrow> Inl SyntaxError
         | Some v \<Rightarrow> Inr (js_add 9 size', v))
      else Inl (Unrecognised_type_identifier type))"

definition unpackValue :: "builtins \<Rightarrow> typed_array \<Rightarrow> error + (nat \<times> js_value)" where
  "unpackValue bi input =
     (case ta_bytes input of
        [] \<Rightarrow> Inl Cannot_unpack_empty_buffer
      | type # _ \<Rightarrow>
          unpack_tagged bi type (ta_bytes input) (drop (byteOffset input + 1) (buffer input))
            (size_field (drop (byteOffset input + 1) (buffer input))))"

text \<open>
  The loop of \<^verbatim>\<open>unpack\<close>: \<open>args\<close> is \<^verbatim>\<open>new Array(size)\<close>, \<open>None\<close> an entry never
  assigned (a hole). It runs while \<^verbatim>\<open>offset < bytes.byteLength && i < size\<close>.
\<close>

function unpack_loop ::
  "builtins \<Rightarrow> typed_array \<Rightarrow> nat \<Rightarrow> nat \<Rightarrow> nat \<Rightarrow> js_value option list
     \<Rightarrow> error + js_value option list"
where
  "unpack_loop bi bytes size' i offset args =
     (if offset < ta_length bytes \<and> i < size' then
        (case unpackValue bi (subarray bytes offset) of
           Inl e \<Rightarrow> Inl e
         | Inr (n, v) \<Rightarrow>
             unpack_loop bi bytes size' (i + 1) (js_add offset n) (args[i := Some v]))
      else Inr args)"
  by pat_completeness auto
termination
  by (relation "measure (\<lambda>(bi, bytes, size', i, offset, args). size' - i)") auto

declare unpack_loop.simps [simp del]

text \<open>
  \<^verbatim>\<open>unpack(bytes)\<close> for a \<^verbatim>\<open>Uint8Array\<close> (a plain array is first copied by
  \<^verbatim>\<open>Uint8Array.from\<close>). The count is read by \<^verbatim>\<open>new DataView(bytes.buffer)\<close>, that is
  from the start of the buffer.
\<close>

definition unpack :: "builtins \<Rightarrow> typed_array \<Rightarrow> error + js_value option list" where
  "unpack bi bytes =
     (case dv_get 8 (buffer bytes) 0 of
        Inl e \<Rightarrow> Inl e
      | Inr n \<Rightarrow>
          (if 2 ^ 32 - 1 < Number_of_nat n then Inl RangeError
           else unpack_loop bi bytes (Number_of_nat n) 0 8 (replicate (Number_of_nat n) None)))"

section \<open>Frames and encode\<close>

text \<open>
  The object handed to \<^verbatim>\<open>wsEncodeFrame\<close> has an opcode, the final flag and a payload;
  a decoded frame (\<^verbatim>\<open>WSFrame\<close>) has in addition the opcode's name, the declared
  payload length and the bytes after the frame. \<^verbatim>\<open>wsEncodeFrame\<close> and
  \<^verbatim>\<open>wsDecodeFrame\<close> belong to \<^verbatim>\<open>alhadis.utils\<close>: the functions that call them take
  them as the parameters \<open>wsE\<close> and \<open>wsD\<close>.
\<close>

record frame =
  opcode :: nat
  isFinal :: bool
  payload :: "byte list"

record ws_frame = frame +
  opname :: string
  frame_length :: nat
  trailer :: "byte list"

datatype frame_data = Text string | Binary "byte list"

text \<open>\<^verbatim>\<open>data.splice(0, maxSize)\<close> removes and returns the first \<open>maxSize\<close> elements;
  \<open>maxSize\<close> is a count of bytes or \<^verbatim>\<open>Infinity\<close>, the default.\<close>

definition splice_head :: "enat \<Rightarrow> 'a list \<Rightarrow> 'a list" where
  "splice_head maxSize data = (case maxSize of enat n \<Rightarrow> take n data | \<infinity> \<Rightarrow> data)"

definition splice_rest :: "enat \<Rightarrow> 'a list \<Rightarrow> 'a list" where
  "splice_rest maxSize data = (case maxSize of enat n \<Rightarrow> drop n data | \<infinity> \<Rightarrow> [])"

text \<open>
  The \<^verbatim>\<open>do \<dots> while(data.length > 0)\<close> loop of \<^verbatim>\<open>encode\<close>. The payload is spliced
  off before \<^verbatim>\<open>isFinal: !data.length\<close> is evaluated. With \<open>maxSize = 0\<close> and data left
  the loop never ends: the result is \<open>None\<close>.
\<close>

partial_function (option) encode_loop ::
  "(frame \<Rightarrow> byte list) \<Rightarrow> enat \<Rightarrow> byte list \<Rightarrow> nat \<Rightarrow> byte list list \<Rightarrow> byte list list option"
where
  "encode_loop wsE maxSize data opc frames =
     (if splice_rest maxSize data \<noteq> []
      then encode_loop wsE maxSize (splice_rest maxSize data) 0x00
             (frames @ [wsE \<lparr>opcode = opc, isFinal = False, payload = splice_head maxSize data\<rparr>])
      else Some (frames @ [wsE \<lparr>opcode = opc, isFinal = True, payload = splice_head maxSize data\<rparr>]))"

definition encode :: "(frame \<Rightarrow> byte list) \<Rightarrow> frame_data \<Rightarrow> enat \<Rightarrow> byte list list option" where
  "encode wsE data maxSize =
     (case data of
        Text s \<Rightarrow> encode_loop wsE maxSize (utf8Decode s) 0x01 []
      | Binary bs \<Rightarrow> encode_loop wsE maxSize bs 0x02 [])"

text \<open>The \<^verbatim>\<open>do \<dots> while(data.length)\<close> loop of \<^verbatim>\<open>decode\<close>, then the clearing of the
  frames' trailers.\<close>

partial_function (option) decode_loop ::
  "(byte list \<Rightarrow> ws_frame) \<Rightarrow> byte list \<Rightarrow> ws_frame list \<Rightarrow> (ws_frame list \<times> byte list) option"
where
  "decode_loop wsD data frames =
     (if length (payload (wsD data)) < frame_length (wsD data) then Some (frames, data)
      else if trailer (wsD data) \<noteq> []
        then decode_loop wsD (trailer (wsD data)) (frames @ [wsD data])
        else Some (frames @ [wsD data], trailer (wsD data)))"

definition decode :: "(byte list \<Rightarrow> ws_frame) \<Rightarrow> byte list \<Rightarrow> (ws_frame list \<times> byte list) option" where
  "decode wsD data =
     map_option (\<lambda>(frames, rest). (map (\<lambda>f. f\<lparr>trailer := []\<rparr>) frames, rest))
       (decode_loop wsD data [])"

section \<open>Channel\<close>

text \<open>
  What a channel emits: the event and its arguments. \<open>ws_close None\<close> is
  \<^verbatim>\<open>emit("ws:close")\<close> with no argument.
\<close>

datatype event =
  ws_ping ws_frame
  | ws_pong ws_frame
  | ws_incomplete_message "byte list" string
  | ws_message frame_data
  | ws_close "(nat \<times> string) option"

text \<open>
  The fields of a \<^verbatim>\<open>Channel\<close>, and what it did to the outside: \<open>written\<close> are the
  arguments of its \<^verbatim>\<open>socket.write\<close> calls in order, \<open>ended\<close> says whether
  \<^verbatim>\<open>socket.end\<close> was called, \<open>emitted\<close> are its emissions in order. Listeners are not
  part of the channel and are not run. \<open>channel_id\<close> is the property \<^verbatim>\<open>id\<close> that the
  server sets.
\<close>

record channel =
  socket :: nat
  maxSize :: nat
  closed :: bool
  frameBuffer :: "byte list"
  inputBuffer :: "byte list"
  inputPending :: bool
  inputType :: string
  outputBuffer :: "byte list list"
  outputPending :: bool
  channel_id :: "nat option"
  written :: "byte list list"
  ended :: bool
  emitted :: "event list"

definition MAX_SAFE_INTEGER :: nat where
  "MAX_SAFE_INTEGER = 2 ^ 53 - 1"

definition new_Channel :: "nat \<Rightarrow> channel" where
  "new_Channel sock =
     \<lparr>socket = sock, maxSize = MAX_SAFE_INTEGER, closed = False, frameBuffer = [],
      inputBuffer = [], inputPending = False, inputType = ''binary'', outputBuffer = [],
      outputPending = False, channel_id = None, written = [], ended = False, emitted = []\<rparr>"

definition emit :: "event \<Rightarrow> channel \<Rightarrow> channel" where
  "emit e c = c\<lparr>emitted := emitted c @ [e]\<rparr>"

definition socket_write :: "byte list \<Rightarrow> channel \<Rightarrow> channel" where
  "socket_write bs c = c\<lparr>written := written c @ [bs]\<rparr>"

text \<open>
  Modelled from the spec: \<^verbatim>\<open>clamp\<close> is imported from \<^verbatim>\<open>alhadis.utils\<close>; it brings a
  number into the interval between its second and third argument.
\<close>

definition clamp :: "int \<Rightarrow> int \<Rightarrow> int \<Rightarrow> int" where
  "clamp x lo hi = min (max x lo) hi"

text \<open>The setter of \<^verbatim>\<open>maxSize\<close>, for a \<^verbatim>\<open>Number\<close> \<open>to\<close>:
  \<^verbatim>\<open>clamp(~~Number(to), 1, Number.MAX_SAFE_INTEGER)\<close>.\<close>

definition set_maxSize :: "double \<Rightarrow> channel \<Rightarrow> channel" where
  "set_maxSize to c = c\<lparr>maxSize := nat (clamp (ToInt32 to) 1 (int MAX_SAFE_INTEGER))\<rparr>"

text \<open>\<^verbatim>\<open>close(code, reason)\<close>, up to the call of \<^verbatim>\<open>socket.end\<close>.\<close>

definition close :: "(frame \<Rightarrow> byte list) \<Rightarrow> nat \<Rightarrow> string \<Rightarrow> channel \<Rightarrow> channel" where
  "close wsE code reason c =
     (if closed c then c
      else let c1 = c\<lparr>closed := True\<rparr>;
               pl = (if code \<noteq> 0
                     then of_nat (code div 256) # of_nat code # utf8Decode reason else []);
               c2 = socket_write (wsE \<lparr>opcode = 0x08, isFinal = True, payload = pl\<rparr>) c1;
               c3 = emit (ws_close (Some (code, reason))) c2
           in c3\<lparr>ended := True\<rparr>)"

definition ping :: "(frame \<Rightarrow> byte list) \<Rightarrow> channel \<Rightarrow> channel" where
  "ping wsE c =
     (if closed c then c
      else socket_write (wsE \<lparr>opcode = 0x09, isFinal = True, payload = []\<rparr>) c)"

definition pong :: "(frame \<Rightarrow> byte list) \<Rightarrow> channel \<Rightarrow> channel" where
  "pong wsE c =
     (if closed c then c
      else socket_write (wsE \<lparr>opcode = 0x0A, isFinal = True, payload = []\<rparr>) c)"

text \<open>\<^verbatim>\<open>payload[i]\<close> under \<^verbatim>\<open>255 &\<close>: 0 when the payload has no such byte.\<close>

definition byte_at :: "byte list \<Rightarrow> nat \<Rightarrow> nat" where
  "byte_at xs i = (if i < length xs then unat (xs ! i) else 0)"

text \<open>The part of \<^verbatim>\<open>readFrame\<close> after the switch (\<^verbatim>\<open>// Data frame\<close>).\<close>

definition data_frame :: "ws_frame \<Rightarrow> channel \<Rightarrow> channel" where
  "data_frame f c =
     (if opcode f < 0x08 then
        (if isFinal f then
           (let message = (if ''text'' = inputType c then Text (utf8Encode (inputBuffer c))
                           else Binary (inputBuffer c))
            in emit (ws_message message) (c\<lparr>inputBuffer := [], inputPending := False\<rparr>))
         else c\<lparr>inputPending := True\<rparr>)
      else c)"

text \<open>
  \<^verbatim>\<open>readFrame(frame)\<close>. The cases \<^verbatim>\<open>"ping"\<close> and \<^verbatim>\<open>"pong"\<close> and a continuation
  that is not expected return from the method; the others go on to the data-frame
  part.
\<close>

definition readFrame :: "(frame \<Rightarrow> byte list) \<Rightarrow> ws_frame \<Rightarrow> channel \<Rightarrow> channel" where
  "readFrame wsE f c =
     (if closed c then c
      else if opname f = ''ping'' then pong wsE (emit (ws_ping f) c)
      else if opname f = ''pong'' then emit (ws_pong f) c
      else if opname f = ''binary'' \<or> opname f = ''text'' then
        data_frame f
          ((if inputBuffer c \<noteq> []
            then emit (ws_incomplete_message (inputBuffer c) (inputType c)) c else c)
           \<lparr>inputBuffer := payload f, inputType := opname f\<rparr>)
      else if opname f = ''continue'' then
        (if \<not> inputPending c then c
         else data_frame f (c\<lparr>inputBuffer := inputBuffer c @ payload f\<rparr>))
      else if opname f = ''close'' then
        data_frame f
          (if payload f \<noteq> []
           then emit (ws_close (Some (byte_at (payload f) 0 * 256 + byte_at (payload f) 1,
                                       utf8Encode (drop 2 (payload f)))))
                  (c\<lparr>closed := True\<rparr>)
           else emit (ws_close None) (c\<lparr>closed := True\<rparr>))
      else data_frame f c)"

text \<open>\<^verbatim>\<open>readBytes(data)\<close>; \<open>None\<close> when the loop of \<^verbatim>\<open>decode\<close> does not end.\<close>

definition readBytes ::
  "(byte list \<Rightarrow> ws_frame) \<Rightarrow> (frame \<Rightarrow> byte list) \<Rightarrow> byte list \<Rightarrow> channel \<Rightarrow> channel option"
where
  "readBytes wsD wsE data c =
     (if closed c then Some c
      else case decode wsD (frameBuffer c @ data) of
             None \<Rightarrow> None
           | Some (frames, rest) \<Rightarrow>
               Some (fold (readFrame wsE) frames (c\<lparr>frameBuffer := rest\<rparr>)))"

text \<open>
  \<^verbatim>\<open>sendNext()\<close> with every write completing at once: the frames queued are written in
  order until the queue is empty. The suspension at each \<^verbatim>\<open>await\<close>, and with it what
  other calls do between two writes, is not modelled.
\<close>

function sendNext :: "channel \<Rightarrow> channel" where
  "sendNext c =
     (if closed c then c
      else case outputBuffer c of
             [] \<Rightarrow> c
           | fr # rest \<Rightarrow>
               (if rest \<noteq> []
                then sendNext (socket_write fr (c\<lparr>outputBuffer := rest\<rparr>))
                else socket_write fr (c\<lparr>outputBuffer := rest\<rparr>)))"
  by pat_completeness auto
termination
  by (relation "measure (\<lambda>c. length (outputBuffer c))") (auto simp: socket_write_def)

declare sendNext.simps [simp del]

text \<open>\<^verbatim>\<open>send(data, raw)\<close>: \<open>Message\<close> is a message to encode (\<^verbatim>\<open>raw = false\<close>), \<open>Raw\<close>
  frames already encoded (\<^verbatim>\<open>raw = true\<close>).\<close>

datatype send_data = Message frame_data | Raw "byte list list"

definition send :: "(frame \<Rightarrow> byte list) \<Rightarrow> send_data \<Rightarrow> channel \<Rightarrow> channel option" where
  "send wsE data c =
     (if closed c then Some c
      else case (case data of Raw frames \<Rightarrow> Some frames
                            | Message m \<Rightarrow> encode wsE m (enat (maxSize c))) of
             None \<Rightarrow> None
           | Some frames \<Rightarrow> Some (sendNext (c\<lparr>outputBuffer := outputBuffer c @ frames\<rparr>)))"

section \<open>Server\<close>

text \<open>
  The table \<^verbatim>\<open>channels\<close> is a \<^verbatim>\<open>Map\<close> from sockets to channels: an association
  list with one entry per key, in insertion order; \<^verbatim>\<open>channels.size\<close> is its length.
\<close>

record server =
  channels :: "(nat \<times> channel) list"

definition new_Server :: server where
  "new_Server = \<lparr>channels = []\<rparr>"

definition isConnected :: "nat \<Rightarrow> server \<Rightarrow> bool" where
  "isConnected sock s = (map_of (channels s) sock \<noteq> None)"

text \<open>
  \<^verbatim>\<open>upgrade({socket})\<close> returns the channel; the channel sits in the table, so the
  assignment to its \<^verbatim>\<open>id\<close> shows there too.
\<close>

definition upgrade :: "nat \<Rightarrow> server \<Rightarrow> channel \<times> server" where
  "upgrade sock s =
     (let ch = new_Channel sock;
          table = AList.update sock ch (channels s);
          ch' = ch\<lparr>channel_id := Some (length table)\<rparr>
      in (ch', s\<lparr>channels := AList.update sock ch' table\<rparr>))"

text \<open>The listener that \<^verbatim>\<open>upgrade\<close> registers once for the channel's \<^verbatim>\<open>"ws:close"\<close>:
  \<^verbatim>\<open>this.channels.delete(socket)\<close>.\<close>

definition on_channel_close :: "nat \<Rightarrow> server \<Rightarrow> server" where
  "on_channel_close sock s = s\<lparr>channels := AList.delete sock (channels s)\<rparr>"

section \<open>Concrete inputs\<close>

text \<open>A stand-in for \<^verbatim>\<open>wsEncodeFrame\<close> on concrete inputs: the opcode byte, with the
  final bit set in it, before the payload.\<close>

definition sample_wsE :: "frame \<Rightarrow> byte list" where
  "sample_wsE f = of_nat (opcode f + (if isFinal f then 128 else 0)) # payload f"

definition sample_wsD :: "byte list \<Rightarrow> ws_frame" where
  "sample_wsD bs =
     \<lparr>opcode = 0x02, isFinal = True, payload = bs, opname = ''binary'',
      frame_length = length bs, trailer = []\<rparr>"

definition closed_channel :: channel where
  "closed_channel = (new_Channel 0)\<lparr>closed := True\<rparr>"

definition close_frame :: "byte list \<Rightarrow> ws_frame" where
  "close_frame pl =
     \<lparr>opcode = 0x08, isFinal = True, payload = pl, opname = ''close'',
      frame_length = length pl, trailer = []\<rparr>"

definition ping_frame :: ws_frame where
  "ping_frame =
     \<lparr>opcode = 0x09, isFinal = True, payload = [], opname = ''ping'',
      frame_length = 0, trailer = []\<rparr>"

definition text_frame :: "byte list \<Rightarrow> bool \<Rightarrow> ws_frame" where
  "text_frame pl fin =
     \<lparr>opcode = 0x01, isFinal = fin, payload = pl, opname = ''text'',
      frame_length = length pl, trailer = []\<rparr>"

definition binary_frame :: "byte list \<Rightarrow> bool \<Rightarrow> ws_frame" where
  "binary_frame pl fin =
     \<lparr>opcode = 0x02, isFinal = fin, payload = pl, opname = ''binary'',
      frame_length = length pl, trailer = []\<rparr>"

text \<open>A channel after a text frame that is not final: with an empty payload, and with
  the payload \<open>h\<close>.\<close>

definition pending_empty :: channel where
  "pending_empty = readFrame sample_wsE (text_frame [] False) (new_Channel 0)"

definition pending_h :: channel where
  "pending_h = readFrame sample_wsE (text_frame [0x68] False) (new_Channel 0)"

text \<open>A server after socket 1 and socket 2 were upgraded, after the channel of socket 1
  then closed, and after socket 3 was upgraded next.\<close>

definition srv_a :: server where
  "srv_a = snd (upgrade 1 new_Server)"

definition srv_ab :: server where
  "srv_ab = snd (upgrade 2 srv_a)"

definition srv_b :: server where
  "srv_b = on_channel_close 1 srv_ab"

definition srv_bc :: server where
  "srv_bc = snd (upgrade 3 srv_b)"

text \<open>Typed arrays: \<^verbatim>\<open>Uint16Array.of(1, 2)\<close> as it lies in the memory of a little-endian
  host, and \<^verbatim>\<open>new Uint8Array([1, 2, 3]).subarray(1)\<close>, the view \<open>[2, 3]\<close> on a buffer of
  three bytes. \<open>number_one\<close> is the \<^verbatim>\<open>Number\<close> 1.\<close>

definition u16_pair :: typed_array where
  "u16_pair = \<lparr>kind = Uint16Array, buffer = [1, 0, 2, 0], byteOffset = 0, ta_length = 2\<rparr>"

definition u8_tail :: typed_array where
  "u8_tail = \<lparr>kind = Uint8Array, buffer = [1, 2, 3], byteOffset = 1, ta_length = 2\<rparr>"

definition number_one :: double where
  "number_one = 0x3FF0000000000000"



section \<open>Values that the codec keeps\<close>

text \<open>
  Equality of values as the round trip of the codec is to keep it: two \<^verbatim>\<open>Number\<close>s are
  equal when they are the same double, \<open>-0\<close> and \<open>0\<close> being two, or both a NaN; a
  \<^verbatim>\<open>Number\<close> and a \<^verbatim>\<open>BigInt\<close> when the number is the double of that integer, one
  below \<open>2 ^ 53\<close> in magnitude; typed arrays when they have the same constructor and
  show the same elements; any other two values when they are the same.
\<close>

fun value_equal :: "js_value \<Rightarrow> js_value \<Rightarrow> bool" where
  "value_equal (Number a) (Number b) = (a = b \<or> (isNaN a \<and> isNaN b))"
| "value_equal (Number a) (BigInt n) = (\<bar>n\<bar> < 2 ^ 53 \<and> a = double_of_int n)"
| "value_equal (BigInt n) (Number b) = (\<bar>n\<bar> < 2 ^ 53 \<and> b = double_of_int n)"
| "value_equal (TypedArray a) (TypedArray b) = (kind a = kind b \<and> ta_bytes a = ta_bytes b)"
| "value_equal x y = (x = y)"

text \<open>
  The values whose lengths the format's fields and JavaScript's numbers hold exactly,
  with a typed array that spans its whole buffer, and with a date, a regular expression
  or a value serialised as JSON that the built-ins build again from what \<^verbatim>\<open>packValue\<close>
  wrote of it.
\<close>

fun spans_buffer :: "typed_array \<Rightarrow> bool" where
  "spans_buffer a =
     (byteOffset a = 0 \<and> length (buffer a) = ta_length a * BYTES_PER_ELEMENT (kind a))"

fun packable :: "builtins \<Rightarrow> js_value \<Rightarrow> bool" where
  "packable bi (TypedArray a) = (spans_buffer a \<and> length (buffer a) < 2 ^ 49)"
| "packable bi (BigInt n) = (length (magnitude_bytes (nat \<bar>n\<bar>)) < 2 ^ 52)"
| "packable bi (Date s) = (length s < 2 ^ 52 \<and> new_Date bi s = s)"
| "packable bi (String s) = (length s < 2 ^ 52)"
| "packable bi (Object s) = (length s < 2 ^ 52 \<and> JSON_parse bi s = Some (Object s))"
| "packable bi (RegExp r) =
     (length (source r) < 2 ^ 52
      \<and> new_RegExp bi (source r) (flagStr (regexp_flags r)) = Some r)"
| "packable bi v = True"

fun is_typed_array :: "js_value \<Rightarrow> bool" where
  "is_typed_array (TypedArray a) = True"
| "is_typed_array v = False"

section \<open>The closed channel\<close>

text \<open>
  Claim C5. Once the closed flag of a channel is true, a call of \<^verbatim>\<open>readBytes\<close>,
  \<^verbatim>\<open>readFrame\<close>, \<^verbatim>\<open>send\<close>, \<^verbatim>\<open>sendNext\<close>, \<^verbatim>\<open>ping\<close> or \<^verbatim>\<open>pong\<close> returns with the
  channel as it was: no field changes, nothing is emitted, nothing is written to the
  socket; and \<^verbatim>\<open>close\<close> on it returns without a write, an emission or a call of
  \<^verbatim>\<open>socket.end\<close>. The channel record holds the writes, the emissions and the end of
  the socket, so equality of the records says all of it. A call of \<^verbatim>\<open>close\<close> leaves the
  channel closed, so a second call after it changes nothing: \<^verbatim>\<open>close\<close> is idempotent.
\<close>

theorem closed_channel_is_inert:
  "(closed c \<longrightarrow>
      readBytes wsD wsE data c = Some c
    \<and> readFrame wsE f c = c
    \<and> send wsE d c = Some c
    \<and> sendNext c = c
    \<and> ping wsE c = c
    \<and> pong wsE c = c
    \<and> close wsE code reason c = c)
   \<and> closed (close wsE code reason c)
   \<and> close wsE code' reason' (close wsE code reason c) = close wsE code reason c"
  by (simp add: readBytes_def readFrame_def send_def sendNext.simps ping_def pong_def close_def
      emit_def socket_write_def Let_def)

theorem closed_channel_is_inert_witness:
  "closed closed_channel
   \<and> readBytes sample_wsD sample_wsE [130, 7] closed_channel = Some closed_channel
   \<and> readFrame sample_wsE ping_frame closed_channel = closed_channel
   \<and> send sample_wsE (Message (Text ''hi'')) closed_channel = Some closed_channel
   \<and> sendNext closed_channel = closed_channel
   \<and> ping sample_wsE closed_channel = closed_channel
   \<and> pong sample_wsE closed_channel = closed_channel
   \<and> close sample_wsE 1000 [] closed_channel = closed_channel
   \<and> closed (close sample_wsE 1000 [] (new_Channel 0))
   \<and> close sample_wsE 1001 ''bye'' (close sample_wsE 1000 [] (new_Channel 0))
       = close sample_wsE 1000 [] (new_Channel 0)"
proof -
  have c: "closed closed_channel"
    by (simp add: closed_channel_def)
  show ?thesis
    using c
      closed_channel_is_inert [of closed_channel sample_wsD sample_wsE "[130, 7]" ping_frame
        "Message (Text ''hi'')" 1000 "[]"]
      closed_channel_is_inert [of "new_Channel 0" sample_wsD sample_wsE "[]" ping_frame
        "Message (Text ''hi'')" 1000 "[]" 1001 "''bye''"]
    by simp
qed

section \<open>Receiving a close frame\<close>

text \<open>
  Claim C10. When a channel that is not closed receives a close frame (name
  \<^verbatim>\<open>"close"\<close>, opcode 8), \<^verbatim>\<open>readFrame\<close> sets the closed flag and emits \<^verbatim>\<open>"ws:close"\<close>:
  with the status code read big-endian from the first two payload bytes (a missing
  second byte counts as 0) and the rest of the payload as the reason when the payload
  is not empty, with no argument otherwise. Nothing else changes: no frame is written
  in reply and the socket is not ended.
\<close>

theorem close_frame_effect:
  assumes "\<not> closed c" and "opname f = ''close''" and "opcode f = 0x08"
  shows "readFrame wsE f c =
           c\<lparr>closed := True,
             emitted := emitted c @
               [ws_close (if payload f \<noteq> []
                          then Some (byte_at (payload f) 0 * 256 + byte_at (payload f) 1,
                                     utf8Encode (drop 2 (payload f)))
                          else None)]\<rparr>
       \<and> written (readFrame wsE f c) = written c
       \<and> ended (readFrame wsE f c) = ended c"
  using assms by (simp add: readFrame_def data_frame_def emit_def)

theorem close_frame_effect_witness:
  "\<not> closed (new_Channel 0)
   \<and> readFrame sample_wsE (close_frame [0x03, 0xE9, 0x62, 0x79, 0x65]) (new_Channel 0) =
       (new_Channel 0)\<lparr>closed := True, emitted := [ws_close (Some (1001, ''bye''))]\<rparr>
   \<and> readFrame sample_wsE (close_frame []) (new_Channel 0) =
       (new_Channel 0)\<lparr>closed := True, emitted := [ws_close None]\<rparr>
   \<and> written (readFrame sample_wsE (close_frame [0x03, 0xE9]) (new_Channel 0)) = []
   \<and> ended (readFrame sample_wsE (close_frame [0x03, 0xE9]) (new_Channel 0)) = False"
proof -
  note eff = close_frame_effect [where c = "new_Channel 0" and wsE = sample_wsE]
  have e: "utf8Encode [0x62, 0x79, 0x65] = ''bye''"
    by code_simp
  show ?thesis
    using eff [where f = "close_frame [0x03, 0xE9, 0x62, 0x79, 0x65]"]
      eff [where f = "close_frame []"] eff [where f = "close_frame [0x03, 0xE9]"]
    by (simp add: close_frame_def new_Channel_def byte_at_def e)
qed

section \<open>A new message while one is pending\<close>

text \<open>
  Claim C4, as stated, fails: \<^verbatim>\<open>readFrame\<close> tests \<^verbatim>\<open>this.inputBuffer.length\<close>, not
  \<^verbatim>\<open>inputPending\<close>. After a text frame with an empty payload that is not final the
  channel has a pending message of type text and an empty buffer; a binary frame then
  starts a new message and no \<^verbatim>\<open>"ws:incomplete-message"\<close> is emitted: the pending
  message and its type are replaced without a trace.
\<close>

theorem pending_message_counterexample:
  "\<not> closed pending_empty \<and> inputPending pending_empty \<and> inputType pending_empty = ''text''
   \<and> emitted pending_empty = []
   \<and> emitted (readFrame sample_wsE (binary_frame [0x01] True) pending_empty)
       = [ws_message (Binary [0x01])]
   \<and> inputType (readFrame sample_wsE (binary_frame [0x01] False) pending_empty) = ''binary''"
  by (simp add: pending_empty_def readFrame_def data_frame_def emit_def text_frame_def
      binary_frame_def new_Channel_def)

text \<open>
  Claim C4, amended. When a channel that is not closed receives a text or binary frame
  while its \<^verbatim>\<open>inputBuffer\<close> is not empty, \<^verbatim>\<open>readFrame\<close> first emits
  \<^verbatim>\<open>"ws:incomplete-message"\<close> with the stale buffer and its type, and then replaces the
  buffer and the type by the payload and the name of the new frame (a final frame
  completes the new message at once: it is emitted and the buffer is cleared). When the
  buffer is empty nothing is emitted for the message replaced.
\<close>

theorem new_message_over_stale_buffer:
  assumes "\<not> closed c" and "opname f = ''text'' \<or> opname f = ''binary''"
  shows "emitted (readFrame wsE f c) =
           emitted c
           @ (if inputBuffer c \<noteq> [] then [ws_incomplete_message (inputBuffer c) (inputType c)]
              else [])
           @ (if opcode f < 0x08 \<and> isFinal f
              then [ws_message (if opname f = ''text'' then Text (utf8Encode (payload f))
                                else Binary (payload f))]
              else [])
       \<and> inputType (readFrame wsE f c) = opname f
       \<and> inputBuffer (readFrame wsE f c) = (if opcode f < 0x08 \<and> isFinal f then [] else payload f)"
proof -
  from assms(2) show ?thesis
  proof
    assume "opname f = ''text''"
    with assms(1) show ?thesis
      by (simp add: readFrame_def data_frame_def emit_def)
  next
    assume "opname f = ''binary''"
    with assms(1) show ?thesis
      by (simp add: readFrame_def data_frame_def emit_def)
  qed
qed

theorem new_message_over_stale_buffer_witness:
  "\<not> closed pending_h \<and> inputBuffer pending_h = [0x68] \<and> inputType pending_h = ''text''
   \<and> emitted (readFrame sample_wsE (binary_frame [0x01] True) pending_h) =
        [ws_incomplete_message [0x68] ''text'', ws_message (Binary [0x01])]
   \<and> inputType (readFrame sample_wsE (binary_frame [0x01] True) pending_h) = ''binary''
   \<and> inputBuffer (readFrame sample_wsE (binary_frame [0x01] False) pending_h) = [0x01]"
proof -
  have st: "\<not> closed pending_h \<and> inputBuffer pending_h = [0x68] \<and> inputType pending_h = ''text''
      \<and> emitted pending_h = []"
    by (simp add: pending_h_def readFrame_def data_frame_def emit_def text_frame_def new_Channel_def)
  note th = new_message_over_stale_buffer [where c = pending_h and wsE = sample_wsE]
  show ?thesis
    using st th [where f = "binary_frame [0x01] True"] th [where f = "binary_frame [0x01] False"]
    by (simp add: binary_frame_def)
qed

text \<open>
  On frames whose name and opcode agree, as \<^verbatim>\<open>wsDecodeFrame\<close> gives them, a buffer that
  is not empty belongs to a pending message: \<^verbatim>\<open>readFrame\<close> keeps it so.
\<close>

lemma pending_invariant:
  assumes "inputBuffer c \<noteq> [] \<longrightarrow> inputPending c"
    and "opname f = ''text'' \<or> opname f = ''binary'' \<longrightarrow> opcode f < 0x08"
  shows "inputBuffer (readFrame wsE f c) \<noteq> [] \<longrightarrow> inputPending (readFrame wsE f c)"
  using assms
  by (auto simp add: readFrame_def data_frame_def emit_def pong_def socket_write_def)

section \<open>The ids of a server's channels\<close>

lemma length_update:
  "length (AList.update k v al) = (if k \<in> fst ` set al then length al else Suc (length al))"
  by (induction al) auto

lemma length_channels_upgrade:
  "length (channels (snd (upgrade sock s))) =
     (if isConnected sock s then length (channels s) else length (channels s) + 1)"
  by (simp add: upgrade_def Let_def isConnected_def length_update map_of_eq_None_iff)

text \<open>
  Claim C9, as stated, fails: the id is the size of the table, and the table shrinks
  when a channel closes. After sockets 1 and 2 were upgraded (ids 1 and 2) and the
  channel of socket 1 closed, the channel of socket 3 gets the id 2: the ids assigned
  are 1, 2, 2, and the two channels in the table both have the id 2.
\<close>

theorem channel_ids_counterexample:
  "channel_id (fst (upgrade 1 new_Server)) = Some 1
   \<and> channel_id (fst (upgrade 2 srv_a)) = Some 2
   \<and> channel_id (fst (upgrade 3 srv_b)) = Some 2
   \<and> map fst (channels srv_bc) = [2, 3]
   \<and> map (channel_id \<circ> snd) (channels srv_bc) = [Some 2, Some 2]"
  by (simp add: srv_bc_def srv_b_def srv_ab_def srv_a_def upgrade_def on_channel_close_def
      new_Server_def new_Channel_def Let_def)

text \<open>
  Claim C9, amended. A channel created by \<^verbatim>\<open>upgrade\<close> gets the id that is the size of
  the table right after its insertion, and it is the table's entry for its socket. For
  a socket that has no channel yet the id is the size before plus one, so that two
  upgrades of new sockets with no channel removed in between assign consecutive ids.
\<close>

theorem upgrade_assigns_table_size:
  "channel_id (fst (upgrade sock s)) = Some (length (channels (snd (upgrade sock s))))
   \<and> map_of (channels (snd (upgrade sock s))) sock = Some (fst (upgrade sock s))
   \<and> (\<not> isConnected sock s \<longrightarrow>
        channel_id (fst (upgrade sock s)) = Some (length (channels s) + 1))
   \<and> (\<not> isConnected sock s \<and> \<not> isConnected sock' (snd (upgrade sock s)) \<longrightarrow>
        channel_id (fst (upgrade sock' (snd (upgrade sock s)))) = Some (length (channels s) + 2))"
proof -
  have a: "channel_id (fst (upgrade k t)) = Some (length (channels (snd (upgrade k t))))" for k t
    by (simp add: upgrade_def Let_def length_update)
  have b: "map_of (channels (snd (upgrade sock s))) sock = Some (fst (upgrade sock s))"
    by (simp add: upgrade_def Let_def update_conv')
  show ?thesis
    using a [of sock s] a [of sock' "snd (upgrade sock s)"] b
    by (simp add: length_channels_upgrade)
qed

theorem upgrade_assigns_table_size_witness:
  "\<not> isConnected 1 new_Server \<and> \<not> isConnected 2 (snd (upgrade 1 new_Server))
   \<and> channel_id (fst (upgrade 1 new_Server)) = Some 1
   \<and> channel_id (fst (upgrade 2 (snd (upgrade 1 new_Server)))) = Some 2"
proof -
  have c: "\<not> isConnected 1 new_Server \<and> \<not> isConnected 2 (snd (upgrade 1 new_Server))"
    by (simp add: isConnected_def new_Server_def upgrade_def Let_def)
  show ?thesis
    using c upgrade_assigns_table_size [of 1 new_Server 2]
    by (simp add: new_Server_def upgrade_def Let_def)
qed

section \<open>The setter of maxSize\<close>

text \<open>
  Claim C8 at the integers from \<open>2 ^ 31\<close> on: \<^verbatim>\<open>~~\<close> reduces its operand to a signed
  32-bit integer before \<^verbatim>\<open>clamp\<close> sees it. The doubles \<open>0x41E0000000000000\<close>,
  \<open>0x41F0000000000000\<close> and \<open>0x433FFFFFFFFFFFFF\<close> are the integers \<open>2 ^ 31\<close>, \<open>2 ^ 32\<close>
  and \<open>2 ^ 53 - 1\<close>, the last one \<^verbatim>\<open>Number.MAX_SAFE_INTEGER\<close>, the default of the
  property; all are between 1 and \<^verbatim>\<open>Number.MAX_SAFE_INTEGER\<close>, and assigning any of them
  stores 1.
\<close>

theorem maxSize_setter_wraps:
  "int_value 0x41E0000000000000 = Some 2147483648
   \<and> maxSize (set_maxSize 0x41E0000000000000 c) = 1
   \<and> int_value 0x41F0000000000000 = Some 4294967296
   \<and> maxSize (set_maxSize 0x41F0000000000000 c) = 1
   \<and> int_value 0x433FFFFFFFFFFFFF = Some (int MAX_SAFE_INTEGER)
   \<and> maxSize (new_Channel 0) = MAX_SAFE_INTEGER
   \<and> maxSize (set_maxSize 0x433FFFFFFFFFFFFF c) = 1"
  by (simp add: set_maxSize_def clamp_def ToInt32_def wrap32_def trunc_value_def int_value_def
      d_exp_def d_man_def d_sign_def d_neg_def MAX_SAFE_INTEGER_def new_Channel_def)

section \<open>Fragmentation by encode\<close>

lemma splice_rest_Nil_head: "splice_rest N data = [] \<Longrightarrow> splice_head N data = data"
  by (cases N) (simp_all add: splice_rest_def splice_head_def)

lemma splice_head_rest: "splice_head N data @ splice_rest N data = data"
  by (cases N) (simp_all add: splice_rest_def splice_head_def)

lemma length_splice_head: "enat (length (splice_head N data)) \<le> N"
  by (cases N) (simp_all add: splice_head_def)

lemma length_splice_rest: "0 < N \<Longrightarrow> splice_rest N data \<noteq> [] \<Longrightarrow> length (splice_rest N data) < length data"
  by (cases N) (auto simp add: splice_rest_def zero_enat_def)

lemma encode_loop_frames:
  assumes "0 < N"
  shows "\<exists>fs. encode_loop wsE N data opc acc = Some (acc @ map wsE fs) \<and> fs \<noteq> []
        \<and> (\<forall>f \<in> set fs. enat (length (payload f)) \<le> N)
        \<and> opcode (hd fs) = opc \<and> (\<forall>f \<in> set (tl fs). opcode f = 0x00)
        \<and> isFinal (last fs) \<and> (\<forall>f \<in> set (butlast fs). \<not> isFinal f)
        \<and> concat (map payload fs) = data"
proof (induction "length data" arbitrary: data opc acc rule: less_induct)
  case less
  show ?case
  proof (cases "splice_rest N data = []")
    case True
    let ?f = "\<lparr>opcode = opc, isFinal = True, payload = splice_head N data\<rparr>"
    have "encode_loop wsE N data opc acc = Some (acc @ map wsE [?f])"
      using True by (subst encode_loop.simps) simp
    moreover have "concat (map payload [?f]) = data"
      using True by (simp add: splice_rest_Nil_head)
    moreover have "\<forall>f \<in> set [?f]. enat (length (payload f)) \<le> N"
      by (simp add: length_splice_head)
    ultimately show ?thesis
      by (intro exI [of _ "[?f]"]) simp
  next
    case False
    let ?f = "\<lparr>opcode = opc, isFinal = False, payload = splice_head N data\<rparr>"
    have "length (splice_rest N data) < length data"
      using assms False by (rule length_splice_rest)
    from less [OF this, of "0x00" "acc @ [wsE ?f]"]
    obtain fs where fs:
      "encode_loop wsE N (splice_rest N data) 0x00 (acc @ [wsE ?f]) = Some ((acc @ [wsE ?f]) @ map wsE fs)"
      "fs \<noteq> []" "\<forall>f \<in> set fs. enat (length (payload f)) \<le> N"
      "\<forall>f \<in> set (tl fs). opcode f = 0x00" "opcode (hd fs) = 0x00"
      "isFinal (last fs)" "\<forall>f \<in> set (butlast fs). \<not> isFinal f"
      "concat (map payload fs) = splice_rest N data"
      by blast
    have "encode_loop wsE N data opc acc = Some (acc @ map wsE (?f # fs))"
      using False fs(1) by (subst encode_loop.simps) simp
    moreover have "\<forall>f \<in> set (tl (?f # fs)). opcode f = 0x00"
      using fs(2,4,5) by (cases fs) auto
    moreover have "concat (map payload (?f # fs)) = data"
      using fs(8) by (simp add: splice_head_rest)
    moreover have "\<forall>f \<in> set (?f # fs). enat (length (payload f)) \<le> N"
      using fs(3) by (simp add: length_splice_head)
    ultimately show ?thesis
      using fs(2,6,7) by (intro exI [of _ "?f # fs"]) simp
  qed
qed

text \<open>
  Claim C6. For a message \<open>m\<close> (a string or a byte sequence) and a positive \<open>maxSize\<close>
  \<open>N\<close> (a count of bytes, or \<^verbatim>\<open>Infinity\<close>), \<^verbatim>\<open>encode\<close> returns, and what it returns
  are the encodings by \<^verbatim>\<open>wsEncodeFrame\<close> of a non-empty list of frames in which every
  payload has at most \<open>N\<close> bytes, the first frame has the opcode 1 (text) or 2
  (binary) and every later one the opcode 0, the last frame is final and no other is,
  and the payloads in order make up the message (the UTF-8 bytes of a string).
\<close>

theorem encode_fragments:
  assumes "0 < N"
  shows "\<exists>fs. encode wsE m N = Some (map wsE fs) \<and> fs \<noteq> []
        \<and> (\<forall>f \<in> set fs. enat (length (payload f)) \<le> N)
        \<and> opcode (hd fs) = (case m of Text s \<Rightarrow> 0x01 | Binary bs \<Rightarrow> 0x02)
        \<and> (\<forall>f \<in> set (tl fs). opcode f = 0x00)
        \<and> isFinal (last fs) \<and> (\<forall>f \<in> set (butlast fs). \<not> isFinal f)
        \<and> concat (map payload fs) = (case m of Text s \<Rightarrow> utf8Decode s | Binary bs \<Rightarrow> bs)"
proof (cases m)
  case (Text s)
  show ?thesis
    using encode_loop_frames [OF assms, of wsE "utf8Decode s" "0x01" "[]"]
    by (simp add: encode_def Text)
next
  case (Binary bs)
  show ?thesis
    using encode_loop_frames [OF assms, of wsE bs "0x02" "[]"]
    by (simp add: encode_def Binary)
qed

theorem encode_fragments_witness:
  "(0::enat) < 2
   \<and> encode sample_wsE (Binary [1, 2, 3, 4, 5]) 2 = Some [[2, 1, 2], [0, 3, 4], [128, 5]]
   \<and> (\<exists>fs. encode sample_wsE (Binary [1, 2, 3, 4, 5]) 2 = Some (map sample_wsE fs)
        \<and> length fs = 3 \<and> concat (map payload fs) = [1, 2, 3, 4, 5])"
proof -
  have pos: "(0::enat) < 2"
    by simp
  have val: "encode sample_wsE (Binary [1, 2, 3, 4, 5]) 2 = Some [[2, 1, 2], [0, 3, 4], [128, 5]]"
    by (simp add: encode_def encode_loop.simps splice_rest_def splice_head_def sample_wsE_def
        numeral_eq_enat)
  from encode_fragments [OF pos, of sample_wsE "Binary [1, 2, 3, 4, 5]"]
  obtain fs where fs: "encode sample_wsE (Binary [1, 2, 3, 4, 5]) 2 = Some (map sample_wsE fs)"
    "concat (map payload fs) = [1, 2, 3, 4, 5]"
    by auto
  have "length (map sample_wsE fs) = length [[2, 1, 2], [0, 3, 4], [128, 5 :: byte]]"
    using fs(1) val by simp
  then have "length fs = 3"
    by simp
  with pos val fs show ?thesis
    by blast
qed

text \<open>With \<open>maxSize = 0\<close> and a message that is not empty the loop of \<^verbatim>\<open>encode\<close> never
  ends.\<close>

lemma encode_loop_zero:
  assumes "data \<noteq> []"
  shows "encode_loop wsE 0 data opc frames = None"
proof (rule ccontr)
  assume "encode_loop wsE 0 data opc frames \<noteq> None"
  then obtain y where y: "encode_loop wsE 0 data opc frames = Some y"
    by auto
  have "(0::enat) = 0 \<longrightarrow> data \<noteq> [] \<longrightarrow> False"
  proof (rule encode_loop.raw_induct
      [where P = "\<lambda>wsE N data opc frames y. N = 0 \<longrightarrow> data \<noteq> [] \<longrightarrow> False", OF _ y])
    fix loop :: "(frame \<Rightarrow> byte list) \<Rightarrow> enat \<Rightarrow> byte list \<Rightarrow> nat \<Rightarrow> byte list list
        \<Rightarrow> byte list list option"
      and wsE N data opc frames y
    assume ih: "\<And>wsE N data opc frames y. loop wsE N data opc frames = Some y \<Longrightarrow>
        N = 0 \<longrightarrow> data \<noteq> [] \<longrightarrow> False"
      and eq: "(if splice_rest N data \<noteq> []
         then loop wsE N (splice_rest N data) 0x00
                (frames @ [wsE \<lparr>opcode = opc, isFinal = False, payload = splice_head N data\<rparr>])
         else Some (frames @ [wsE \<lparr>opcode = opc, isFinal = True,
                                      payload = splice_head N data\<rparr>])) = Some y"
    show "N = 0 \<longrightarrow> data \<noteq> [] \<longrightarrow> False"
    proof (intro impI)
      assume z: "N = 0" and ne: "data \<noteq> []"
      then have r: "splice_rest N data = data"
        by (simp add: splice_rest_def zero_enat_def)
      with eq ne have "loop wsE N data 0x00
          (frames @ [wsE \<lparr>opcode = opc, isFinal = False, payload = splice_head N data\<rparr>])
          = Some y"
        by simp
      from ih [OF this] z ne show False
        by simp
    qed
  qed
  with assms show False
    by simp
qed

section \<open>The codec on concrete streams\<close>

lemma be_bytes_numeral:
  "be_bytes (numeral k) n = be_bytes (pred_numeral k) (n div 256) @ [of_nat n]"
proof -
  have "numeral k = Suc (pred_numeral k)"
    by (rule numeral_eq_Suc)
  then show ?thesis
    by (metis be_bytes.simps(2))
qed

lemma replicate_numeral: "replicate (numeral k) x = x # replicate (pred_numeral k) x"
  by (simp add: numeral_eq_Suc)

lemmas pack_eval =
  pack_def packValue.simps Uint8Array_from_def typed_arrays_def indexOf_def uint64ToBytes_def be_bytes_numeral
  isNaN_def d_exp_def d_man_def neg_zero_def pos_infinity_def neg_infinity_def int_value_def
  ToInt32_def trunc_value_def wrap32_def d_sign_def d_neg_def packInteger_def int_format_def
  int_types_def dv_set_def utf8Decode_def

lemmas unpack_eval =
  unpack_def unpack_loop.simps unpackValue_def unpack_tagged_def size_field_def
  Uint8Array_from_def ta_bytes_def be_nat_def Number_of_nat_def js_add_def js_mul_def
  slice_def new_typed_array_def typed_arrays_def dv_get_def subarray_def replicate_numeral

lemma utf8Encode_Nil [simp]: "utf8Encode [] = []"
  by (simp add: utf8Encode_def)

text \<open>
  For every typed array the 8-byte field holds the length of the whole buffer in bytes,
  and the entry decoded is reported as 9 bytes long.
\<close>

lemma typed_array_entry_consumed:
  assumes "15 < t" and "t < 26" and "unpack_tagged bi t elems view sz = Inr (n, v)"
  shows "n = 9"
proof -
  have "t \<notin> {0, 1, 2, 3, 4, 5, 6, 7, 8, 9, 10, 11, 12, 13, 14, 15, 26}"
    using assms(1,2) by auto
  with assms show ?thesis
    by (auto simp add: unpack_tagged_def split: option.splits)
qed

lemma typed_array_entry_field:
  "packValue (TypedArray a) =
     of_nat (indexOf typed_arrays (kind a) + 16) # uint64ToBytes (length (buffer a)) @ buffer a"
  by (simp add: packValue.simps Let_def)

text \<open>
  Claim C3 at \<^verbatim>\<open>Uint16Array.of(1, 2)\<close>. \<^verbatim>\<open>packValue\<close> writes the byte length 4 into the
  8-byte field, not the element count 2, and the elements as they lie in memory, here
  low byte first. \<^verbatim>\<open>unpackValue\<close> multiplies the field by the element size as if it were
  the element count, so it takes up to 8 bytes, those of the next entries with them
  when there are any, and it reports 9 bytes consumed, not the 13 of the entry.
\<close>

theorem typed_array_entry_layout:
  "packValue (TypedArray u16_pair) = [0x11, 0, 0, 0, 0, 0, 0, 0, 4, 1, 0, 2, 0]
   \<and> unpackValue bi (Uint8Array_from [0x11, 0, 0, 0, 0, 0, 0, 0, 4, 1, 0, 2, 0])
       = Inr (9, TypedArray u16_pair)
   \<and> unpackValue bi (Uint8Array_from [0x11, 0, 0, 0, 0, 0, 0, 0, 4, 1, 0, 2, 0, 8, 5, 8, 6])
       = Inr (9, TypedArray \<lparr>kind = Uint16Array, buffer = [1, 0, 2, 0, 8, 5, 8, 6],
                               byteOffset = 0, ta_length = 4\<rparr>)"
proof -
  have "packValue (TypedArray u16_pair) = [0x11, 0, 0, 0, 0, 0, 0, 0, 4, 1, 0, 2, 0]"
    by (simp add: pack_eval u16_pair_def)
  moreover have "unpackValue bi (Uint8Array_from [0x11, 0, 0, 0, 0, 0, 0, 0, 4, 1, 0, 2, 0])
       = Inr (9, TypedArray u16_pair)"
    by (simp add: unpack_eval u16_pair_def)
  moreover have
    "unpackValue bi (Uint8Array_from [0x11, 0, 0, 0, 0, 0, 0, 0, 4, 1, 0, 2, 0, 8, 5, 8, 6])
       = Inr (9, TypedArray \<lparr>kind = Uint16Array, buffer = [1, 0, 2, 0, 8, 5, 8, 6],
                               byteOffset = 0, ta_length = 4\<rparr>)"
    by (simp add: unpack_eval)
  ultimately show ?thesis
    by simp
qed

text \<open>
  Claim C2 at \<^verbatim>\<open>pack(Uint8Array.of(99), 1)\<close>. The stream starts with the count 2, but
  \<^verbatim>\<open>unpack\<close> does not return two entries: after the typed array \<^verbatim>\<open>unpackValue\<close> reports
  9 bytes consumed, the next entry is read at the array's own data byte 99, and the
  \<^verbatim>\<open>TypeError\<close> for the type 99 ends \<^verbatim>\<open>unpack\<close>.
\<close>

theorem unpack_count_after_typed_array:
  "pack [TypedArray (Uint8Array_from [99]), Number number_one]
     = Uint8Array_from [0, 0, 0, 0, 0, 0, 0, 2, 16, 0, 0, 0, 0, 0, 0, 0, 1, 99, 8, 1]
   \<and> unpack bi (pack [TypedArray (Uint8Array_from [99]), Number number_one])
     = Inl (Unrecognised_type_identifier 99)"
proof -
  have p: "pack [TypedArray (Uint8Array_from [99]), Number number_one]
     = Uint8Array_from [0, 0, 0, 0, 0, 0, 0, 2, 16, 0, 0, 0, 0, 0, 0, 0, 1, 99, 8, 1]"
    by (simp add: pack_eval number_one_def)
  have "unpack bi (Uint8Array_from [0, 0, 0, 0, 0, 0, 0, 2, 16, 0, 0, 0, 0, 0, 0, 0, 1, 99, 8, 1])
     = Inl (Unrecognised_type_identifier 99)"
    by (simp add: unpack_eval)
  with p show ?thesis
    by simp
qed

text \<open>
  Claim C1 at \<^verbatim>\<open>new Uint8Array([1, 2, 3]).subarray(1)\<close>, the array \<open>[2, 3]\<close>.
  \<^verbatim>\<open>packValue\<close> serialises \<^verbatim>\<open>input.buffer\<close>, the whole buffer, whatever part of it the
  array shows: what \<^verbatim>\<open>unpack\<close> gives back is the array \<open>[1, 2, 3]\<close>.
\<close>

theorem roundtrip_of_a_view:
  "ta_bytes u8_tail = [2, 3]
   \<and> unpack bi (pack [TypedArray u8_tail]) = Inr [Some (TypedArray (Uint8Array_from [1, 2, 3]))]
   \<and> ta_bytes (Uint8Array_from [1, 2, 3]) = [1, 2, 3]"
proof -
  have p: "pack [TypedArray u8_tail]
     = Uint8Array_from [0, 0, 0, 0, 0, 0, 0, 1, 16, 0, 0, 0, 0, 0, 0, 0, 3, 1, 2, 3]"
    by (simp add: pack_eval u8_tail_def)
  have "unpack bi (Uint8Array_from [0, 0, 0, 0, 0, 0, 0, 1, 16, 0, 0, 0, 0, 0, 0, 0, 3, 1, 2, 3])
     = Inr [Some (TypedArray (Uint8Array_from [1, 2, 3]))]"
    by (simp add: unpack_eval)
  with p show ?thesis
    by (simp add: ta_bytes_def u8_tail_def Uint8Array_from_def)
qed

section \<open>Doubles and integers\<close>

text \<open>The fields of the double of an integer, and that \<open>double_of_int\<close> and
  \<open>int_value\<close> are inverse to each other below \<open>2 ^ 53\<close>.\<close>

lemma bit_length_bounds: "0 < a \<Longrightarrow> 2 ^ (bit_length a - 1) \<le> a \<and> a < 2 ^ bit_length a"
proof (induction a rule: bit_length.induct)
  case (1 n)
  show ?case
  proof (cases "n div 2 = 0")
    case True
    with "1.prems" have "n = 1"
      by presburger
    moreover have "bit_length (Suc 0) = Suc 0"
      by (simp add: bit_length.simps [of "Suc 0"] bit_length.simps [of 0])
    ultimately show ?thesis
      by simp
  next
    case False
    with "1.IH" "1.prems" have ih: "2 ^ (bit_length (n div 2) - 1) \<le> n div 2"
      "n div 2 < 2 ^ bit_length (n div 2)"
      by simp_all
    have bl: "bit_length n = Suc (bit_length (n div 2))"
      using "1.prems" by (subst bit_length.simps) simp
    have pos: "0 < bit_length (n div 2)"
      using False by (subst bit_length.simps) simp
    have "(2::nat) ^ bit_length (n div 2) = 2 * 2 ^ (bit_length (n div 2) - 1)"
      using pos by (cases "bit_length (n div 2)") simp_all
    with ih(1) have "(2::nat) ^ bit_length (n div 2) \<le> 2 * (n div 2)"
      by simp
    moreover have "n < 2 * 2 ^ bit_length (n div 2)"
      using ih(2) by linarith
    ultimately show ?thesis
      by (simp add: bl)
  qed
qed

lemma bit_length_unique:
  assumes "2 ^ e \<le> a" and "a < 2 ^ Suc e"
  shows "bit_length a = Suc e"
proof -
  have pos: "0 < a"
    using assms(1) by (metis gr0I not_le zero_less_numeral zero_less_power)
  from bit_length_bounds [OF pos] have b: "2 ^ (bit_length a - 1) \<le> a" "a < 2 ^ bit_length a"
    by simp_all
  have "(2::nat) ^ (bit_length a - 1) < 2 ^ Suc e"
    using b(1) assms(2) by linarith
  then have "bit_length a - 1 < Suc e"
    using power_less_imp_less_exp [of 2 "bit_length a - 1" "Suc e"] by simp
  moreover have "(2::nat) ^ e < 2 ^ bit_length a"
    using b(2) assms(1) by linarith
  then have "e < bit_length a"
    using power_less_imp_less_exp [of 2 e "bit_length a"] by simp
  ultimately show ?thesis
    by linarith
qed


lemma double_decomp:
  fixes w :: double
  shows "unat w = (if d_neg w then 2 ^ 63 else 0) + d_exp w * 2 ^ 52 + d_man w"
    and "d_exp w < 2048" and "d_man w < 2 ^ 52"
proof -
  define P :: nat where "P = 2 ^ 52"
  define q where "q = unat w div P"
  have P: "0 < P" "(2::nat) ^ 63 = 2048 * P" "(2::nat) ^ 64 = 4096 * P"
    by (simp_all add: P_def)
  have "unat w < 2 ^ 64"
    using unsigned_less [of w, where 'a = nat] by simp
  then have "unat w < 4096 * P"
    by (simp only: P)
  then have q: "q < 4096"
    unfolding q_def using P(1) by (simp add: less_mult_imp_div_less)
  have neg: "d_neg w \<longleftrightarrow> 2048 \<le> q"
  proof -
    have "d_neg w \<longleftrightarrow> 2048 * P \<le> unat w"
      by (simp only: d_neg_def P)
    also have "\<dots> \<longleftrightarrow> 2048 \<le> q"
      unfolding q_def using P(1) by (simp add: less_eq_div_iff_mult_less_eq)
    finally show ?thesis .
  qed
  have e: "d_exp w = q mod 2048" and m: "d_man w = unat w mod P"
    by (simp_all add: d_exp_def d_man_def q_def P_def)
  have "unat w = q * P + unat w mod P"
    by (simp add: q_def)
  moreover have "q = (if d_neg w then 2048 else 0) + q mod 2048"
    using q neg by (auto simp add: mod_if)
  ultimately have "unat w = ((if d_neg w then 2048 else 0) + d_exp w) * P + d_man w"
    using e m by simp
  then show "unat w = (if d_neg w then 2 ^ 63 else 0) + d_exp w * 2 ^ 52 + d_man w"
    by (simp add: P P_def algebra_simps)
  show "d_exp w < 2048"
    by (simp add: d_exp_def)
  show "d_man w < 2 ^ 52"
    by (simp add: d_man_def)
qed

lemma double_fields:
  fixes ex m :: nat and s :: bool
  assumes "ex < 2048" and "m < 2 ^ 52"
  defines "v \<equiv> (if s then 2 ^ 63 else 0) + ex * 2 ^ 52 + m"
  shows "unat (of_nat v :: double) = v"
    and "d_neg (of_nat v :: double) = s"
    and "d_exp (of_nat v :: double) = ex"
    and "d_man (of_nat v :: double) = m"
proof -
  define P :: nat where "P = 2 ^ 52"
  define a :: nat where "a = (if s then 2048 else 0) + ex"
  have P: "0 < P" "(2::nat) ^ 63 = 2048 * P" "(2::nat) ^ 64 = 4096 * P" "(2::nat) ^ 52 = P"
    by (simp_all add: P_def)
  have v: "v = a * P + m"
    by (simp add: v_def P_def a_def)
  have mP: "m < P"
    using assms(2) by (simp add: P_def)
  have a: "a < 4096"
    using assms(1) by (simp add: a_def)
  have "a * P + m < (a + 1) * P"
    using mP by simp
  also have "\<dots> \<le> 4096 * P"
    using a by (intro mult_le_mono1) simp
  finally have lt: "v < 2 ^ 64"
    by (simp only: v P)
  show u: "unat (of_nat v :: double) = v"
    using lt by (simp add: unat_of_nat)
  have dv: "v div P = a" and md: "v mod P = m"
    using mP by (simp_all add: v)
  show "d_man (of_nat v :: double) = m"
    by (simp only: d_man_def u P md)
  have "d_exp (of_nat v :: double) = a mod 2048"
    by (simp only: d_exp_def u P dv)
  then show "d_exp (of_nat v :: double) = ex"
    using assms(1) by (simp add: a_def)
  have "d_neg (of_nat v :: double) \<longleftrightarrow> 2048 * P \<le> v"
    by (simp only: d_neg_def u P)
  also have "\<dots> \<longleftrightarrow> 2048 \<le> v div P"
    using P(1) by (simp add: less_eq_div_iff_mult_less_eq)
  also have "\<dots> \<longleftrightarrow> s"
    using assms(1) by (simp add: dv a_def)
  finally show "d_neg (of_nat v :: double) = s" .
qed


lemma double_of_int_fields:
  assumes "n \<noteq> 0" and "\<bar>n\<bar> < 2 ^ 53"
  defines "a \<equiv> nat \<bar>n\<bar>"
  defines "e \<equiv> bit_length a - 1"
  shows "d_neg (double_of_int n) = (n < 0)"
    and "d_exp (double_of_int n) = e + 1023"
    and "2 ^ 52 + d_man (double_of_int n) = a * 2 ^ (52 - e)"
    and "e \<le> 52"
proof -
  have pos: "0 < a" and a53: "a < 2 ^ 53"
    using assms(1,2) by (simp_all add: a_def nat_less_iff)
  from bit_length_bounds [OF pos] have b: "2 ^ e \<le> a" "a < 2 ^ bit_length a"
    by (simp_all add: e_def)
  have blpos: "0 < bit_length a"
    using pos by (subst bit_length.simps) simp
  then have bl: "bit_length a = Suc e"
    by (simp add: e_def)
  have "(2::nat) ^ e < 2 ^ 53"
    using b(1) a53 by linarith
  then have "e < 53"
    using power_less_imp_less_exp [of 2 e 53] by simp
  then show e52: "e \<le> 52"
    by simp
  have split: "(2::nat) ^ 52 = 2 ^ e * 2 ^ (52 - e)"
    using e52 by (simp flip: power_add)
  have lo: "2 ^ 52 \<le> a * 2 ^ (52 - e)"
    unfolding split using b(1) by (intro mult_le_mono1)
  have "a * 2 ^ (52 - e) < 2 ^ Suc e * 2 ^ (52 - e)"
    using b(2) by (simp add: bl)
  also have "\<dots> = 2 * 2 ^ 52"
    unfolding split by simp
  finally have hi: "a * 2 ^ (52 - e) - 2 ^ 52 < 2 ^ 52"
    using lo by linarith
  have ex: "e + 1023 < 2048"
    using e52 by simp
  have d: "double_of_int n =
      of_nat ((if n < 0 then 2 ^ 63 else 0) + (e + 1023) * 2 ^ 52 + (a * 2 ^ (52 - e) - 2 ^ 52))"
    using assms(1) by (simp add: double_of_int_def a_def e_def Let_def)
  show "d_neg (double_of_int n) = (n < 0)"
    unfolding d by (rule double_fields(2) [OF ex hi])
  show "d_exp (double_of_int n) = e + 1023"
    unfolding d by (rule double_fields(3) [OF ex hi])
  have "d_man (double_of_int n) = a * 2 ^ (52 - e) - 2 ^ 52"
    unfolding d by (rule double_fields(4) [OF ex hi])
  then show "2 ^ 52 + d_man (double_of_int n) = a * 2 ^ (52 - e)"
    using lo by simp
qed

lemma double_zero_fields: "d_exp 0 = 0" "d_man 0 = 0" "\<not> d_neg 0"
  by (simp_all add: d_exp_def d_man_def d_neg_def)

lemma int_value_double_of_int:
  assumes "\<bar>n\<bar> < 2 ^ 53"
  shows "int_value (double_of_int n) = Some n" and "trunc_value (double_of_int n) = n"
proof -
  have "int_value (double_of_int n) = Some n \<and> trunc_value (double_of_int n) = n"
  proof (cases "n = 0")
    case True
    then show ?thesis
      by (simp add: double_of_int_def int_value_def trunc_value_def double_zero_fields)
  next
    case False
    define a where "a = nat \<bar>n\<bar>"
    define e where "e = bit_length a - 1"
    have f: "d_neg (double_of_int n) = (n < 0)" "d_exp (double_of_int n) = e + 1023"
      "2 ^ 52 + d_man (double_of_int n) = a * 2 ^ (52 - e)" "e \<le> 52"
      using double_of_int_fields [OF False assms] by (simp_all add: a_def e_def)
    have sg: "d_sign (double_of_int n) * int a = n"
      by (simp add: d_sign_def f(1) a_def)
    show ?thesis
    proof (cases "e = 52")
      case True
      then have "2 ^ 52 + d_man (double_of_int n) = a"
        using f(3) by simp
      then show ?thesis
        using sg by (simp add: int_value_def trunc_value_def f(2) True Let_def)
    next
      case False
      then have lt: "e < 52"
        using f(4) by simp
      then have k: "1075 - (e + 1023) = 52 - e"
        by simp
      have "(2 ^ 52 + d_man (double_of_int n)) mod 2 ^ (52 - e) = 0"
        and "(2 ^ 52 + d_man (double_of_int n)) div 2 ^ (52 - e) = a"
        unfolding f(3) by simp_all
      then show ?thesis
        using sg lt by (simp add: int_value_def trunc_value_def f(2) Let_def k)
    qed
  qed
  then show "int_value (double_of_int n) = Some n" and "trunc_value (double_of_int n) = n"
    by simp_all
qed


lemma double_of_int_nonzero:
  assumes "0 < a" and "2 ^ E \<le> a" and "a < 2 ^ Suc E" and "E \<le> 52"
    and "a * 2 ^ (52 - E) = 2 ^ 52 + m"
    and "n = (if s then - int a else int a)"
  shows "double_of_int n = of_nat ((if s then 2 ^ 63 else 0) + (E + 1023) * 2 ^ 52 + m)"
proof -
  have n0: "n \<noteq> 0" and na: "nat \<bar>n\<bar> = a" and neg: "n < 0 \<longleftrightarrow> s"
    using assms(1,6) by auto
  have bl: "bit_length a - Suc 0 = E"
    using bit_length_unique [OF assms(2,3)] by simp
  have arg: "(if n < 0 then 2 ^ 63 else 0) + (bit_length (nat \<bar>n\<bar>) - 1 + 1023) * 2 ^ 52
        + (nat \<bar>n\<bar> * 2 ^ (52 - (bit_length (nat \<bar>n\<bar>) - 1)) - 2 ^ 52)
      = (if s then 2 ^ 63 else 0) + (E + 1023) * 2 ^ 52 + m"
    by (simp add: na bl neg assms(5))
  show ?thesis
    using n0 by (simp only: double_of_int_def Let_def if_not_P arg if_False)
qed

lemma double_of_int_int_value:
  assumes iv: "int_value w = Some n" and small: "\<bar>n\<bar> < 2 ^ 53" and nz: "w \<noteq> neg_zero"
  shows "double_of_int n = w"
proof -
  define e where "e = d_exp w"
  define m where "m = d_man w"
  define s where "s = d_neg w"
  have dec: "unat w = (if s then 2 ^ 63 else 0) + e * 2 ^ 52 + m" and m52: "m < 2 ^ 52"
    using double_decomp [of w] by (simp_all add: e_def m_def s_def)
  have "w = of_nat (unat w)"
    by simp
  then have w: "w = of_nat ((if s then 2 ^ 63 else 0) + e * 2 ^ 52 + m)"
    by (simp only: dec)
  have sgn: "d_sign w = (if s then - 1 else 1)"
    by (simp add: d_sign_def s_def)
  consider (zero) "e = 0" | (low) "0 < e" "e < 1023" | (mid) "1023 \<le> e" "e < 1075"
    | (high) "1075 \<le> e"
    by linarith
  then show ?thesis
  proof cases
    case zero
    with iv have "m = 0" and "n = 0"
      by (auto simp add: int_value_def e_def m_def Let_def split: if_splits)
    have "\<not> s"
    proof
      assume s
      with dec zero \<open>m = 0\<close> have "unat w = unat neg_zero"
        by (simp add: neg_zero_def)
      with nz show False
        by (simp add: word_unat_eq_iff)
    qed
    with w zero \<open>m = 0\<close> \<open>n = 0\<close> show ?thesis
      by (simp add: double_of_int_def)
  next
    case low
    with iv show ?thesis
      by (simp add: int_value_def e_def Let_def)
  next
    case mid
    define k where "k = 1075 - e"
    define a where "a = (2 ^ 52 + m) div 2 ^ k"
    have k: "0 < k" "k \<le> 52" "52 - (52 - k) = k" "52 - k + 1023 = e"
      using mid by (simp_all add: k_def)
    from iv mid have md: "(2 ^ 52 + m) mod 2 ^ k = 0" and n: "n = d_sign w * int a"
      by (auto simp add: int_value_def e_def m_def k_def a_def Let_def split: if_splits)
    have ak: "a * 2 ^ k = 2 ^ 52 + m"
      using md by (simp add: a_def mod_eq_0_iff_dvd)
    have split: "(2::nat) ^ 52 = 2 ^ (52 - k) * 2 ^ k"
      using k(2) by (simp flip: power_add)
    have "2 ^ (52 - k) * 2 ^ k \<le> a * 2 ^ k"
      unfolding ak by (simp flip: split)
    then have lo: "2 ^ (52 - k) \<le> a"
      by simp
    have "a * 2 ^ k < 2 * 2 ^ 52"
      unfolding ak using m52 by simp
    also have "\<dots> = 2 ^ Suc (52 - k) * 2 ^ k"
      unfolding split by simp
    finally have hi: "a < 2 ^ Suc (52 - k)"
      by simp
    have pos: "0 < a"
      using lo by (metis gr0I not_le zero_less_numeral zero_less_power)
    have "double_of_int n =
        of_nat ((if s then 2 ^ 63 else 0) + (52 - k + 1023) * 2 ^ 52 + m)"
      by (rule double_of_int_nonzero [OF pos lo hi]) (simp_all add: k ak n sgn)
    then show ?thesis
      by (simp only: k w)
  next
    case high
    define a where "a = (2 ^ 52 + m) * 2 ^ (e - 1075)"
    from iv high have e47: "e \<noteq> 2047" and n: "n = d_sign w * int a"
      by (auto simp add: int_value_def e_def m_def a_def Let_def split: if_splits)
    have "int a = \<bar>n\<bar>"
      by (simp add: n sgn abs_mult)
    with small have "int a < 2 ^ 53"
      by simp
    then have a53: "a < 2 ^ 53"
      by (metis of_nat_less_iff of_nat_numeral of_nat_power)
    have e75: "e = 1075"
    proof (rule ccontr)
      assume "e \<noteq> 1075"
      with high have "(2::nat) ^ 1 \<le> 2 ^ (e - 1075)"
        by (intro power_increasing) simp_all
      then have "2 ^ 52 * 2 \<le> (2 ^ 52 + m) * 2 ^ (e - 1075)"
        by (intro mult_mono) simp_all
      with a53 show False
        by (simp add: a_def)
    qed
    have a: "a = 2 ^ 52 + m"
      by (simp add: a_def e75)
    have pos: "0 < a" and lo: "2 ^ 52 \<le> a" and hi: "a < 2 ^ Suc 52"
      using m52 by (simp_all add: a)
    have "double_of_int n = of_nat ((if s then 2 ^ 63 else 0) + (52 + 1023) * 2 ^ 52 + m)"
      by (rule double_of_int_nonzero [OF pos lo hi]) (simp_all add: a n sgn)
    then show ?thesis
      by (simp add: w e75)
  qed
qed

lemma wrap32_id: "- (2 ^ 31) \<le> n \<Longrightarrow> n < 2 ^ 31 \<Longrightarrow> wrap32 n = n"
  by (simp add: wrap32_def)

lemma wrap32_range: "- (2 ^ 31) \<le> wrap32 n \<and> wrap32 n < 2 ^ 31"
proof -
  have "0 \<le> (n + 2 ^ 31) mod 2 ^ 32" and "(n + 2 ^ 31) mod 2 ^ 32 < 2 ^ 32"
    by simp_all
  then show ?thesis
    by (simp add: wrap32_def)
qed

text \<open>What the setter of \<^verbatim>\<open>maxSize\<close> does keep: an integer from 1 to \<open>2 ^ 31 - 1\<close>.\<close>

lemma maxSize_setter_in_int32:
  assumes "1 \<le> v" and "v < 2 ^ 31"
  shows "maxSize (set_maxSize (double_of_int v) c) = nat v"
proof -
  have "\<bar>v\<bar> < 2 ^ 53"
    using assms by simp
  then have "trunc_value (double_of_int v) = v"
    by (rule int_value_double_of_int(2))
  then have "ToInt32 (double_of_int v) = v"
    using assms by (simp add: ToInt32_def wrap32_id)
  then show ?thesis
    using assms by (simp add: set_maxSize_def clamp_def MAX_SAFE_INTEGER_def)
qed

section \<open>Fields written and read back\<close>

lemma length_be_bytes [simp]: "length (be_bytes k n) = k"
  by (induction k arbitrary: n) auto

lemma be_nat_snoc: "be_nat (bs @ [b]) = be_nat bs * 256 + unat b"
  by (simp add: be_nat_def)

lemma be_nat_be_bytes: "be_nat (be_bytes k n) = n mod 256 ^ k"
proof (induction k arbitrary: n)
  case 0
  show ?case by (simp add: be_nat_def)
next
  case (Suc k)
  have "unat (of_nat n :: byte) = n mod 256"
    by (simp add: unat_of_nat)
  then have "be_nat (be_bytes (Suc k) n) = (n div 256 mod 256 ^ k) * 256 + n mod 256"
    by (simp add: be_nat_snoc Suc)
  also have "\<dots> = n mod (256 * 256 ^ k)"
    by (simp add: mod_mult2_eq)
  finally show ?case by simp
qed

lemma be_nat_uint64: "n < 2 ^ 64 \<Longrightarrow> be_nat (uint64ToBytes n) = n"
  by (simp add: uint64ToBytes_def be_nat_be_bytes)

lemma magnitude_bytes_nonempty: "magnitude_bytes n \<noteq> []"
  by (subst magnitude_bytes.simps) simp

lemma be_nat_magnitude_bytes: "be_nat (magnitude_bytes n) = n"
proof (induction n rule: magnitude_bytes.induct)
  case (1 n)
  have u: "unat (of_nat n :: byte) = n mod 256"
    by (simp add: unat_of_nat)
  show ?case
  proof (cases "n < 256")
    case True
    then show ?thesis
      by (subst magnitude_bytes.simps) (simp add: be_nat_def u)
  next
    case False
    with 1 have "be_nat (magnitude_bytes (n div 256)) = n div 256"
      by simp
    with False show ?thesis
      by (subst magnitude_bytes.simps) (simp add: be_nat_snoc u)
  qed
qed

lemma be_nat_dv_set: "be_nat (dv_set k n) = nat (n mod 2 ^ (8 * k))"
proof -
  have "(256::nat) ^ k = 2 ^ (8 * k)"
    by (simp add: power_mult)
  moreover have "nat (n mod 2 ^ (8 * k)) < 2 ^ (8 * k)"
    by (simp add: nat_less_iff)
  ultimately show ?thesis
    by (simp add: dv_set_def be_nat_be_bytes)
qed

lemma length_dv_set [simp]: "length (dv_set k n) = k"
  by (simp add: dv_set_def)

lemma length_uint64ToBytes [simp]: "length (uint64ToBytes n) = 8"
  by (simp add: uint64ToBytes_def)

lemma dv_get_dv_set: "dv_get k (dv_set k n @ post) 0 = Inr (nat (n mod 2 ^ (8 * k)))"
  by (simp add: dv_get_def be_nat_dv_set)

lemma unsigned_roundtrip: "0 \<le> n \<Longrightarrow> n < 2 ^ (8 * k) \<Longrightarrow> int (nat (n mod 2 ^ (8 * k))) = n"
  by simp

lemma signed_roundtrip:
  assumes "- (2 ^ (8 * k - 1)) \<le> n" and "n < 0" and "0 < k"
  shows "to_signed k (nat (n mod 2 ^ (8 * k))) = n"
proof -
  define h :: int where "h = 2 ^ (8 * k - 1)"
  have hpos: "0 < h" and hn: "- h \<le> n"
    using assms(1) by (simp_all add: h_def)
  have "8 * k = Suc (8 * k - 1)"
    using assms(3) by simp
  then have p: "(2::int) ^ (8 * k) = 2 * h"
    unfolding h_def by (metis power_Suc)
  have "n mod (2 * h) = (n + 2 * h) mod (2 * h)"
    by simp
  also have "\<dots> = n + 2 * h"
    using hn hpos assms(2) by (intro mod_pos_pos_trivial) linarith+
  finally have m: "n mod 2 ^ (8 * k) = n + 2 * h"
    by (simp only: p)
  have "h \<le> n + 2 * h"
    using hn by linarith
  then have "nat h \<le> nat (n + 2 * h)"
    by simp
  moreover have "nat h = 2 ^ (8 * k - 1)"
    by (simp add: h_def nat_power_eq)
  ultimately have "2 ^ (8 * k - 1) \<le> nat (n + 2 * h)"
    by simp
  then have "to_signed k (nat (n + 2 * h)) = int (nat (n + 2 * h)) - 2 ^ (8 * k)"
    by (simp add: to_signed_def)
  also have "\<dots> = n"
    using hn hpos by (simp add: p)
  finally show ?thesis
    by (simp only: m)
qed

section \<open>The round trip of the codec\<close>

text \<open>
  Each entry that \<^verbatim>\<open>packValue\<close> writes for a value other than a typed array is read back
  by \<^verbatim>\<open>unpackValue\<close>, whatever bytes follow it, with its full length reported and a value
  equal to the one packed.
\<close>

lemma int_format_cases:
  assumes "int_format n = Some (k, ty)"
  obtains (u8) "0 \<le> n" "n < 2 ^ 8" "k = 1" "ty = Uint8"
    | (u16) "0 \<le> n" "n < 2 ^ 16" "k = 2" "ty = Uint16"
    | (u32) "0 \<le> n" "n < 2 ^ 32" "k = 4" "ty = Uint32"
    | (u64) "0 \<le> n" "n < 2 ^ 64" "k = 8" "ty = Uint64"
    | (i8) "n < 0" "- (2 ^ 7) \<le> n" "k = 1" "ty = Int8"
    | (i16) "n < 0" "- (2 ^ 15) \<le> n" "k = 2" "ty = Int16"
    | (i32) "n < 0" "- (2 ^ 31) < n" "k = 4" "ty = Int32"
    | (i64) "n < 0" "- (2 ^ 63) \<le> n" "k = 8" "ty = Int64"
  using assms by (auto simp add: int_format_def split: if_splits)

lemma unpack_packInteger:
  assumes "int_format n = Some (k, ty)"
  shows "unpack_tagged bi (hd (packInteger n)) (packInteger n @ post) (tl (packInteger n) @ post) sz
       = Inr (length (packInteger n),
              if ty = Uint64 \<or> ty = Int64 then BigInt n else Number (double_of_int n))"
proof -
  have p: "packInteger n = of_nat (indexOf int_types ty + 8) # dv_set k n"
    by (simp add: packInteger_def assms)
  have u: "0 \<le> n \<Longrightarrow> n < 2 ^ (8 * k) \<Longrightarrow>
      dv_get k (dv_set k n @ post) 0 = Inr (nat n)"
    by (simp add: dv_get_dv_set)
  have s: "n < 0 \<Longrightarrow> - (2 ^ (8 * k - 1)) \<le> n \<Longrightarrow> 0 < k \<Longrightarrow>
      map_sum id (\<lambda>v. f (to_signed k v)) (dv_get k (dv_set k n @ post) 0) = Inr (f n)" for f :: "int \<Rightarrow> nat \<times> js_value"
    by (simp add: dv_get_dv_set signed_roundtrip)
  from assms show ?thesis
  proof (cases rule: int_format_cases)
    case u8
    then show ?thesis
      using u by (simp add: p int_types_def indexOf_def unpack_tagged_def)
  next
    case u16
    then show ?thesis
      using u by (simp add: p int_types_def indexOf_def unpack_tagged_def)
  next
    case u32
    then show ?thesis
      using u by (simp add: p int_types_def indexOf_def unpack_tagged_def)
  next
    case u64
    then show ?thesis
      using u by (simp add: p int_types_def indexOf_def unpack_tagged_def)
  next
    case i8
    then show ?thesis
      using s [of "\<lambda>x. (2, Number (double_of_int x))"]
      by (simp add: p int_types_def indexOf_def unpack_tagged_def)
  next
    case i16
    then show ?thesis
      using s [of "\<lambda>x. (3, Number (double_of_int x))"]
      by (simp add: p int_types_def indexOf_def unpack_tagged_def)
  next
    case i32
    then show ?thesis
      using s [of "\<lambda>x. (5, Number (double_of_int x))"]
      by (simp add: p int_types_def indexOf_def unpack_tagged_def)
  next
    case i64
    then show ?thesis
      using s [of "\<lambda>x. (9, BigInt x)"]
      by (simp add: p int_types_def indexOf_def unpack_tagged_def)
  qed
qed


lemma Number_of_nat_small: "n < 2 ^ 53 \<Longrightarrow> Number_of_nat n = n"
  by (simp add: Number_of_nat_def)

lemma size_field_uint64:
  assumes "len < 2 ^ 53"
  shows "size_field (uint64ToBytes len @ rest) = len"
proof -
  have "len < 2 ^ 64"
    using assms by simp
  then have "be_nat (uint64ToBytes len) = len"
    by (rule be_nat_uint64)
  then show ?thesis
    using assms by (simp add: size_field_def Number_of_nat_small)
qed

lemma js_add_exact: "a + b < 2 ^ 53 \<Longrightarrow> js_add a b = a + b"
  by (simp add: js_add_def Number_of_nat_small)

lemma slice_body:
  assumes "length pre + length body < 2 ^ 53"
  shows "slice (pre @ body @ post) (length pre) (js_add (length pre) (length body)) = body"
  by (simp add: slice_def js_add_exact [OF assms])

lemma unpack_big_integer:
  assumes "int_format n = None" and "length (magnitude_bytes (nat \<bar>n\<bar>)) < 2 ^ 52"
  shows "unpack_tagged bi (hd (packInteger n)) (packInteger n @ post) (tl (packInteger n) @ post)
           (size_field (tl (packInteger n) @ post))
       = Inr (length (packInteger n), BigInt n)"
proof -
  define mag where "mag = magnitude_bytes (nat \<bar>n\<bar>)"
  define t :: byte where "t = (if n < 0 then 28 else 27)"
  have p: "packInteger n = t # uint64ToBytes (length mag) @ mag"
    by (simp add: packInteger_def assms(1) mag_def t_def Let_def)
  have len: "length mag < 2 ^ 53" "length mag + 9 < 2 ^ 53"
    using assms(2) by (simp_all add: mag_def)
  have sz: "size_field (tl (packInteger n) @ post) = length mag"
    using size_field_uint64 [OF len(1), of "mag @ post"] by (simp add: p)
  have j: "js_add 9 (length mag) = 9 + length mag"
    using len(2) by (simp add: js_add_exact)
  have sl: "slice (t # uint64ToBytes (length mag) @ mag @ post) 9 (9 + length mag) = mag"
    using slice_body [of "t # uint64ToBytes (length mag)" mag post] len(2) by (simp add: j)
  have ne: "mag \<noteq> []"
    by (simp add: mag_def magnitude_bytes_nonempty)
  have val: "int (be_nat mag) * (if t = 28 then - 1 else 1) = n"
    by (simp add: mag_def be_nat_magnitude_bytes t_def)
  have tag: "unpack_tagged bi t elems view sz' =
      (if slice elems 9 (js_add 9 sz') = [] then Inl SyntaxError
       else Inr (js_add 9 sz',
                 BigInt (int (be_nat (slice elems 9 (js_add 9 sz')))
                         * (if t = 28 then - 1 else 1))))" for elems view sz'
    by (simp add: unpack_tagged_def t_def)
  show ?thesis
    unfolding sz by (simp add: p tag sl j ne val)
qed

lemma utf8_roundtrip: "utf8Encode (utf8Decode s) = s"
proof -
  have "char_of (unat (of_char c :: byte)) = c" for c
  proof -
    have "(of_char c :: byte) = of_nat (of_char c)"
      by (simp only: of_nat_of_char)
    then have "unat (of_char c :: byte) = (of_char c :: nat) mod 2 ^ LENGTH(8)"
      by (simp only: unat_of_nat)
    then have "unat (of_char c :: byte) = (of_char c :: nat)"
      by simp
    then show ?thesis
      by (simp only: char_of_char)
  qed
  then show ?thesis
    by (simp add: utf8Encode_def utf8Decode_def comp_def)
qed

lemma length_utf8Decode [simp]: "length (utf8Decode s) = length s"
  by (simp add: utf8Decode_def)

lemma unpack_text_entry:
  assumes "length s < 2 ^ 52" and "t = 29 \<or> t = 30 \<or> t = 32"
    and "t = 29 \<longrightarrow> new_Date bi s = s"
    and "t = 32 \<longrightarrow> JSON_parse bi s = Some (Object s)"
  shows "unpack_tagged bi t ((t # uint64ToBytes (length s) @ utf8Decode s) @ post)
           ((uint64ToBytes (length s) @ utf8Decode s) @ post)
           (size_field ((uint64ToBytes (length s) @ utf8Decode s) @ post))
       = Inr (length (t # uint64ToBytes (length s) @ utf8Decode s),
              if t = 29 then Date s else if t = 30 then String s else Object s)"
proof -
  have len: "length s < 2 ^ 53" "length (utf8Decode s) + 9 < 2 ^ 53"
    using assms(1) by simp_all
  have sz: "size_field ((uint64ToBytes (length s) @ utf8Decode s) @ post) = length s"
    using size_field_uint64 [OF len(1), of "utf8Decode s @ post"] by simp
  have j: "js_add 9 (length s) = 9 + length s"
    using len(2) by (simp add: js_add_exact)
  have sl: "slice (t # uint64ToBytes (length s) @ utf8Decode s @ post) 9 (9 + length s)
      = utf8Decode s"
    using slice_body [of "t # uint64ToBytes (length s)" "utf8Decode s" post] len(2)
    by (simp add: j)
  have "unpack_tagged bi t (t # uint64ToBytes (length s) @ utf8Decode s @ post) view (length s)
       = Inr (Suc (8 + length s),
              if t = 29 then Date s else if t = 30 then String s else Object s)" for view
    using assms(2,3,4) sl by (elim disjE) (simp_all add: unpack_tagged_def j utf8_roundtrip)
  then show ?thesis
    unfolding sz by simp
qed

text \<open>The flags byte gives back the flags string of the regular expression.\<close>

lemma flagStr_regexp_flags:
  "flagStr (regexp_flags r) =
     (if global r then ''g'' else []) @ (if ignoreCase r then ''i'' else [])
     @ (if multiline r then ''m'' else []) @ (if dotAll r then ''s'' else [])
     @ (if unicode r then ''u'' else []) @ (if sticky r then ''y'' else [])"
  by (cases "global r"; cases "ignoreCase r"; cases "multiline r"; cases "dotAll r";
      cases "unicode r"; cases "sticky r")
    (simp_all add: regexp_flags_def flagStr_def)

lemma unpack_regexp_entry:
  assumes "length (source r) < 2 ^ 52"
    and "new_RegExp bi (source r) (flagStr (regexp_flags r)) = Some r"
  shows "unpack_tagged bi (hd (packValue (RegExp r))) (packValue (RegExp r) @ post)
           (tl (packValue (RegExp r)) @ post) (size_field (tl (packValue (RegExp r)) @ post))
       = Inr (length (packValue (RegExp r)), RegExp r)"
proof -
  define src where "src = utf8Decode (source r)"
  define l where "l = length (source r)"
  define view where "view = uint64ToBytes l @ regexp_flags r # src @ post"
  have p: "packValue (RegExp r) = 31 # uint64ToBytes l @ regexp_flags r # src"
    by (simp add: packValue.simps src_def l_def Let_def)
  have len: "l < 2 ^ 53" "10 + length src < 2 ^ 53" "length src = l"
    using assms by (simp_all add: src_def l_def)
  have sz: "size_field view = l"
    unfolding view_def by (rule size_field_uint64 [OF len(1)])
  have j: "js_add 10 l = 10 + l"
    using len(2,3) by (simp add: js_add_exact)
  have sl: "slice (31 # view) 10 (10 + l) = src"
    using slice_body [of "31 # uint64ToBytes l @ [regexp_flags r]" src post] len(2,3)
    by (simp add: j view_def)
  have fl: "dv_get (Suc 0) view 8 = Inr (unat (regexp_flags r))"
    by (simp add: dv_get_def be_nat_def view_def)
  have "utf8Encode src = source r"
    by (simp add: src_def utf8_roundtrip)
  then have "unpack_tagged bi 31 (31 # view) view l = Inr (10 + l, RegExp r)"
    using assms(2) by (simp add: unpack_tagged_def fl j sl)
  then have "unpack_tagged bi 31 (31 # view) view (size_field view) = Inr (10 + l, RegExp r)"
    by (simp add: sz)
  then show ?thesis
    by (simp add: p view_def len(3))
qed

lemma typed_array_tag:
  "typed_arrays ! indexOf typed_arrays k = k" "indexOf typed_arrays k < 10"
  by (cases k; simp add: typed_arrays_def indexOf_def)+

lemma js_mul_exact: "a * b < 2 ^ 53 \<Longrightarrow> js_mul a b = a * b"
  by (simp add: js_mul_def Number_of_nat_small)

lemma unpack_typed_array_entry:
  assumes "spans_buffer a" and "length (buffer a) < 2 ^ 49"
  shows "unpack_tagged bi (hd (packValue (TypedArray a))) (packValue (TypedArray a))
           (tl (packValue (TypedArray a))) (size_field (tl (packValue (TypedArray a))))
       = Inr (9, TypedArray a)"
proof -
  define l where "l = length (buffer a)"
  define i where "i = indexOf typed_arrays (kind a)"
  define b where "b = BYTES_PER_ELEMENT (kind a)"
  define tg :: byte where "tg = of_nat (i + 16)"
  have p: "packValue (TypedArray a) = tg # uint64ToBytes l @ buffer a"
    by (simp add: packValue.simps l_def i_def tg_def Let_def)
  have i: "typed_arrays ! i = kind a" "i < 10"
    by (simp_all add: i_def typed_array_tag)
  have b: "0 < b" "b \<le> 8"
    by (cases "kind a"; simp add: b_def)+
  have len: "l < 2 ^ 53" "l * b < 2 ^ 53" "9 + l * b < 2 ^ 53"
  proof -
    have le: "l * b \<le> l * 8"
      using b(2) by simp
    have lt: "l * 8 < 2 ^ 52"
      using assms(2) by (simp add: l_def)
    have "l * b < 2 ^ 52"
      by (rule order_le_less_trans [OF le lt])
    then show "l * b < 2 ^ 53" "9 + l * b < 2 ^ 53"
      by simp_all
    show "l < 2 ^ 53"
      using assms(2) by (simp add: l_def)
  qed
  have sz: "size_field (uint64ToBytes l @ buffer a) = l"
    by (rule size_field_uint64 [OF len(1)])
  have t: "unat tg = i + 16"
  proof -
    have "unat tg = (i + 16) mod 2 ^ LENGTH(8)"
      unfolding tg_def by (rule unat_of_nat)
    then show ?thesis
      using i(2) by simp
  qed
  have tag: "15 < tg" "tg < 26"
    using i(2) by (simp_all add: word_less_nat_alt t)
  have ne: "tg \<notin> {0, 1, 2, 3, 4, 5, 6, 7, 8, 9, 10, 11, 12, 13, 14, 15, 26}"
    using tag by auto
  have "l \<le> l * b"
    using b(1) by simp
  then have sl: "slice (tg # uint64ToBytes l @ buffer a) 9
      (js_add 9 (js_mul l (BYTES_PER_ELEMENT (kind a)))) = buffer a"
    using len by (simp add: slice_def js_add_exact js_mul_exact l_def b_def)
  have nw: "new_typed_array (kind a) (buffer a) = Some a"
    using assms(1) b(1) by (simp add: new_typed_array_def b_def)
  have "unpack_tagged bi tg (tg # uint64ToBytes l @ buffer a) view l = Inr (9, TypedArray a)"
    for view
    using ne tag by (simp add: unpack_tagged_def t i(1) sl nw)
  then show ?thesis
    by (simp add: p sz)
qed


lemma unpack_integer_entry:
  assumes "length (magnitude_bytes (nat \<bar>n\<bar>)) < 2 ^ 52"
  shows "\<exists>v'. unpack_tagged bi (hd (packInteger n)) (packInteger n @ post) (tl (packInteger n) @ post)
             (size_field (tl (packInteger n) @ post)) = Inr (length (packInteger n), v')
           \<and> (v' = BigInt n \<or> v' = Number (double_of_int n) \<and> \<bar>n\<bar> < 2 ^ 53)"
proof (cases "int_format n")
  case None
  then show ?thesis
    using unpack_big_integer [OF None assms, where post = post and bi = bi] by simp
next
  case (Some kt)
  obtain k ty where kt: "int_format n = Some (k, ty)"
    using Some by (cases kt) simp
  have "\<bar>n\<bar> < 2 ^ 53" if "ty \<noteq> Uint64" and "ty \<noteq> Int64"
    using kt that by (cases rule: int_format_cases) simp_all
  then show ?thesis
    using unpack_packInteger [OF kt, where post = post and bi = bi
        and sz = "size_field (tl (packInteger n) @ post)"]
    by auto
qed

lemma unpack_number_entry:
  "\<exists>v'. unpack_tagged bi (hd (packValue (Number w))) (packValue (Number w) @ post)
          (tl (packValue (Number w)) @ post) (size_field (tl (packValue (Number w)) @ post))
        = Inr (length (packValue (Number w)), v')
      \<and> value_equal (Number w) v'"
proof -
  consider (nan) "isNaN w"
    | (const) "\<not> isNaN w" "w = neg_zero \<or> w = pos_infinity \<or> w = neg_infinity"
    | (float) "\<not> isNaN w" "w \<noteq> neg_zero" "w \<noteq> pos_infinity" "w \<noteq> neg_infinity"
        "int_value w \<noteq> Some (ToInt32 w)"
    | (int) "\<not> isNaN w" "w \<noteq> neg_zero" "w \<noteq> pos_infinity" "w \<noteq> neg_infinity"
        "int_value w = Some (ToInt32 w)"
    by blast
  then show ?thesis
  proof cases
    case nan
    have "isNaN canonical_NaN"
      by (simp add: isNaN_def canonical_NaN_def d_exp_def d_man_def)
    with nan show ?thesis
      by (simp add: packValue.simps unpack_tagged_def)
  next
    case const
    have "\<not> isNaN neg_zero" "pos_infinity \<noteq> neg_zero" "neg_infinity \<noteq> neg_zero"
      "neg_infinity \<noteq> pos_infinity"
      by (simp_all add: isNaN_def neg_zero_def pos_infinity_def neg_infinity_def d_exp_def
          d_man_def)
    with const show ?thesis
      by (auto simp add: packValue.simps unpack_tagged_def)
  next
    case float
    have p: "packValue (Number w) = 26 # be_bytes 8 (unat w)"
      using float by (simp add: packValue.simps)
    have "unat w < 256 ^ 8"
      using unsigned_less [of w, where 'a = nat] by simp
    then have "be_nat (be_bytes 8 (unat w)) = unat w"
      by (simp add: be_nat_be_bytes)
    then have "dv_get 8 (be_bytes 8 (unat w) @ post) 0 = Inr (unat w)"
      by (simp add: dv_get_def)
    then show ?thesis
      by (simp add: p unpack_tagged_def)
  next
    case int
    define n where "n = ToInt32 w"
    have p: "packValue (Number w) = packInteger n"
      using int by (simp add: packValue.simps n_def)
    have r: "- (2 ^ 31) \<le> n" "n < 2 ^ 31"
      using wrap32_range [of "trunc_value w"] by (simp_all add: n_def ToInt32_def)
    then obtain k ty where kt: "int_format n = Some (k, ty)"
      by (cases "int_format n") (auto simp add: int_format_def split: if_splits)
    have b: "\<bar>n\<bar> < 2 ^ 53"
      using r by simp
    then have d: "double_of_int n = w"
      using int by (intro double_of_int_int_value) (simp_all add: n_def)
    show ?thesis
      unfolding p
      using b unpack_packInteger [OF kt, where post = post and bi = bi
        and sz = "size_field (tl (packInteger n) @ post)"]
      by (auto simp add: d)
  qed
qed

lemma unpack_entry:
  assumes "packable bi v" and "\<not> is_typed_array v"
  shows "\<exists>v'. unpack_tagged bi (hd (packValue v)) (packValue v @ post) (tl (packValue v) @ post)
             (size_field (tl (packValue v) @ post)) = Inr (length (packValue v), v')
           \<and> value_equal v v'"
proof (cases v)
  case Undefined
  then show ?thesis
    by (simp add: packValue.simps unpack_tagged_def)
next
  case Null
  then show ?thesis
    by (simp add: packValue.simps unpack_tagged_def)
next
  case (Boolean b)
  then show ?thesis
    by (simp add: packValue.simps unpack_tagged_def)
next
  case (Number w)
  then show ?thesis
    using unpack_number_entry [where w = w and post = post and bi = bi] by simp
next
  case (BigInt n)
  then have "length (magnitude_bytes (nat \<bar>n\<bar>)) < 2 ^ 52"
    using assms(1) by simp
  from unpack_integer_entry [OF this, where post = post and bi = bi] show ?thesis
    by (auto simp add: BigInt packValue.simps int_value_double_of_int)
next
  case (TypedArray a)
  with assms(2) show ?thesis
    by simp
next
  case (Date s)
  then show ?thesis
    using assms(1) unpack_text_entry [where s = s and t = 29 and post = post and bi = bi] by (simp add: packValue.simps Let_def)
next
  case (String s)
  then show ?thesis
    using assms(1) unpack_text_entry [where s = s and t = 30 and post = post and bi = bi] by (simp add: packValue.simps Let_def)
next
  case (RegExp r)
  then show ?thesis
    using assms(1) unpack_regexp_entry [where r = r and post = post and bi = bi] by simp
next
  case (Object s)
  then show ?thesis
    using assms(1) unpack_text_entry [where s = s and t = 32 and post = post and bi = bi] by (simp add: packValue.simps Let_def)
qed


lemma packValue_nonempty: "packValue v \<noteq> []"
proof (cases v)
  case (Number w)
  have "packInteger n \<noteq> []" for n
    by (simp add: packInteger_def Let_def split: option.split)
  then show ?thesis
    by (simp add: Number packValue.simps)
next
  case (BigInt n)
  then show ?thesis
    by (simp add: packValue.simps packInteger_def Let_def split: option.split)
qed (simp_all add: packValue.simps Let_def)

lemma unpackValue_at:
  assumes "e \<noteq> []"
  shows "unpackValue bi (subarray (Uint8Array_from (pre @ e @ rest)) (length pre))
       = unpack_tagged bi (hd e) (e @ rest) (tl e @ rest) (size_field (tl e @ rest))"
proof -
  obtain t es where e: "e = t # es"
    using assms by (cases e) simp_all
  have v: "subarray (Uint8Array_from (pre @ e @ rest)) (length pre)
      = \<lparr>kind = Uint8Array, buffer = pre @ e @ rest, byteOffset = length pre,
         ta_length = length e + length rest\<rparr>"
    by (simp add: subarray_def Uint8Array_from_def)
  show ?thesis
    unfolding v by (simp add: unpackValue_def ta_bytes_def e)
qed

text \<open>
  The loop of \<^verbatim>\<open>unpack\<close> over entries that \<^verbatim>\<open>packValue\<close> wrote, whatever bytes follow
  them: it assigns as many entries of the array and goes on behind them.
\<close>

lemma unpack_loop_entries:
  assumes "\<forall>v \<in> set vs. packable bi v \<and> \<not> is_typed_array v"
    and "length pre + length (concat (map packValue vs)) < 2 ^ 53"
    and "length args = n" and "i + length vs \<le> n"
  shows "\<exists>vs'. list_all2 value_equal vs vs'
      \<and> unpack_loop bi (Uint8Array_from (pre @ concat (map packValue vs) @ post)) n i
            (length pre) args
          = unpack_loop bi (Uint8Array_from (pre @ concat (map packValue vs) @ post)) n
              (i + length vs) (length (pre @ concat (map packValue vs)))
              (take i args @ map Some vs' @ drop (i + length vs) args)"
  using assms
proof (induction vs arbitrary: pre i args)
  case Nil
  then show ?case
    by simp
next
  case (Cons v vs)
  define e where "e = packValue v"
  define rest where "rest = concat (map packValue vs)"
  define bytes where "bytes = Uint8Array_from (pre @ e @ rest @ post)"
  have ne: "e \<noteq> []"
    by (simp add: e_def packValue_nonempty)
  have len: "length pre + length e + length rest < 2 ^ 53"
    using Cons.prems(2) by (simp add: e_def rest_def)
  have i: "i < n" "i < length args"
    using Cons.prems(3,4) by simp_all
  from Cons.prems(1) obtain v' where v':
    "unpack_tagged bi (hd e) (e @ rest @ post) (tl e @ rest @ post)
        (size_field (tl e @ rest @ post)) = Inr (length e, v')"
    "value_equal v v'"
    using unpack_entry [where v = v and post = "rest @ post" and bi = bi]
    by (auto simp add: e_def)
  have uv: "unpackValue bi (subarray bytes (length pre)) = Inr (length e, v')"
    unfolding bytes_def by (simp only: unpackValue_at [OF ne] v'(1))
  have j: "js_add (length pre) (length e) = length (pre @ e)"
    using len by (simp add: js_add_exact)
  have off: "length pre < ta_length bytes"
    using ne by (simp add: bytes_def Uint8Array_from_def)
  have step: "unpack_loop bi bytes n i (length pre) args
      = unpack_loop bi bytes n (i + 1) (length (pre @ e)) (args[i := Some v'])"
    using off i(1) by (subst unpack_loop.simps) (simp add: uv j)
  have "\<exists>vs'. list_all2 value_equal vs vs'
      \<and> unpack_loop bi (Uint8Array_from ((pre @ e) @ concat (map packValue vs) @ post)) n
            (i + 1) (length (pre @ e)) (args[i := Some v'])
          = unpack_loop bi (Uint8Array_from ((pre @ e) @ concat (map packValue vs) @ post)) n
              (i + 1 + length vs) (length ((pre @ e) @ concat (map packValue vs)))
              (take (i + 1) (args[i := Some v']) @ map Some vs'
                 @ drop (i + 1 + length vs) (args[i := Some v']))"
    using Cons.prems len by (intro Cons.IH) (simp_all add: rest_def)
  then obtain vs' where vs': "list_all2 value_equal vs vs'"
    "unpack_loop bi bytes n (i + 1) (length (pre @ e)) (args[i := Some v'])
      = unpack_loop bi bytes n (i + 1 + length vs) (length ((pre @ e) @ rest))
          (take (i + 1) (args[i := Some v']) @ map Some vs'
             @ drop (i + 1 + length vs) (args[i := Some v']))"
    by (auto simp add: bytes_def rest_def)
  have tk: "take (i + 1) (args[i := Some v']) = take i args @ [Some v']"
    using i(2) by (simp add: take_Suc_conv_app_nth)
  have dr: "drop (i + 1 + length vs) (args[i := Some v']) = drop (i + 1 + length vs) args"
    by simp
  have "unpack_loop bi bytes n i (length pre) args
      = unpack_loop bi bytes n (i + 1 + length vs) (length ((pre @ e) @ rest))
          ((take i args @ [Some v']) @ map Some vs' @ drop (i + 1 + length vs) args)"
    by (simp only: step vs'(2) tk dr)
  then have "unpack_loop bi bytes n i (length pre) args
      = unpack_loop bi bytes n (i + length (v # vs)) (length (pre @ e @ rest))
          (take i args @ map Some (v' # vs') @ drop (i + length (v # vs)) args)"
    by simp
  moreover have "list_all2 value_equal (v # vs) (v' # vs')"
    using v'(2) vs'(1) by simp
  ultimately show ?case
    unfolding bytes_def e_def rest_def by (intro exI [of _ "v' # vs'"]) simp
qed

text \<open>
  The round trip of \<^verbatim>\<open>pack\<close> and \<^verbatim>\<open>unpack\<close> for an argument list without typed
  arrays: \<^verbatim>\<open>unpack\<close> returns as many entries as there were arguments, each equal to
  its argument.
\<close>

theorem pack_unpack_values:
  assumes "\<forall>v \<in> set vs. packable bi v \<and> \<not> is_typed_array v"
    and "length vs < 2 ^ 32"
    and "8 + length (concat (map packValue vs)) < 2 ^ 53"
  shows "\<exists>vs'. unpack bi (pack vs) = Inr (map Some vs') \<and> list_all2 value_equal vs vs'"
proof -
  define n where "n = length vs"
  define pre where "pre = uint64ToBytes n"
  have n: "n < 2 ^ 53" "n < 2 ^ 64" "\<not> 2 ^ 32 - 1 < n"
    using assms(2) by (simp_all add: n_def)
  have cnt: "dv_get 8 (buffer (pack vs)) 0 = Inr n"
    using be_nat_uint64 [OF n(2)] by (simp add: pack_def Uint8Array_from_def dv_get_def n_def)
  define bytes where "bytes = Uint8Array_from (pre @ concat (map packValue vs) @ [])"
  have "length pre + length (concat (map packValue vs)) < 2 ^ 53"
    and "length (replicate n (None :: js_value option)) = n" and "0 + length vs \<le> n"
    using assms(3) by (simp_all add: pre_def n_def)
  from unpack_loop_entries [OF assms(1) this, where post = "[]"]
  obtain vs' where vs': "list_all2 value_equal vs vs'"
    "unpack_loop bi bytes n 0 (length pre) (replicate n None)
      = unpack_loop bi bytes n (0 + length vs) (length (pre @ concat (map packValue vs)))
          (take 0 (replicate n None) @ map Some vs' @ drop (0 + length vs) (replicate n None))"
    unfolding bytes_def by blast
  have "unpack_loop bi bytes n (0 + length vs) (length (pre @ concat (map packValue vs)))
          (take 0 (replicate n None) @ map Some vs' @ drop (0 + length vs) (replicate n None))
      = Inr (map Some vs')"
    by (subst unpack_loop.simps) (simp add: n_def)
  with vs'(2) have lp: "unpack_loop bi bytes n 0 8 (replicate n None) = Inr (map Some vs')"
    by (simp add: pre_def)
  have "unpack bi (pack vs) = Inr (map Some vs')"
    using n(3) lp by (simp add: unpack_def cnt Number_of_nat_small [OF n(1)])
      (simp add: pack_def pre_def n_def bytes_def)
  with vs'(1) show ?thesis
    by blast
qed

text \<open>The round trip for one typed array that spans its buffer.\<close>

theorem pack_unpack_typed_array:
  assumes "spans_buffer a" and "length (buffer a) < 2 ^ 49"
  shows "unpack bi (pack [TypedArray a]) = Inr [Some (TypedArray a)]"
proof -
  define e where "e = packValue (TypedArray a)"
  define bytes where "bytes = Uint8Array_from (uint64ToBytes 1 @ e @ [])"
  have ne: "e \<noteq> []"
    by (simp add: e_def packValue_nonempty)
  have pk: "pack [TypedArray a] = bytes"
    by (simp add: pack_def bytes_def e_def)
  have cnt: "dv_get 8 (buffer bytes) 0 = Inr 1"
    using be_nat_uint64 [of 1] by (simp add: bytes_def Uint8Array_from_def dv_get_def)
  have "unpackValue bi (subarray bytes (length (uint64ToBytes 1)))
      = unpack_tagged bi (hd e) (e @ []) (tl e @ []) (size_field (tl e @ []))"
    unfolding bytes_def by (rule unpackValue_at [OF ne])
  then have uv: "unpackValue bi (subarray bytes 8) = Inr (9, TypedArray a)"
    using unpack_typed_array_entry [OF assms] by (simp add: e_def)
  have off: "8 < ta_length bytes"
    using ne by (simp add: bytes_def Uint8Array_from_def)
  have "unpack_loop bi bytes 1 0 8 [None] = unpack_loop bi bytes 1 1 (js_add 8 9) [Some (TypedArray a)]"
    using off by (subst unpack_loop.simps) (simp add: uv)
  also have "\<dots> = Inr [Some (TypedArray a)]"
    by (subst unpack_loop.simps) simp
  finally show ?thesis
    by (simp add: pk unpack_def cnt Number_of_nat_small)
qed

text \<open>What does hold for every argument list: the stream of \<^verbatim>\<open>pack\<close> begins with the
  8-byte big-endian count of the arguments.\<close>

lemma pack_count_field:
  "take 8 (buffer (pack args)) = uint64ToBytes (length args)"
  "length args < 2 ^ 64 \<Longrightarrow> be_nat (take 8 (buffer (pack args))) = length args"
  by (simp_all add: pack_def Uint8Array_from_def be_nat_uint64)

section \<open>Errors of unpack and unpackValue\<close>















end
